theory Spec2Isabelle
  imports Main
begin

text \<open>
  A model of \<^verbatim>\<open>snapnotes.py\<close>: the store file and its JSON text, the operations on notes,
  the export and the commands \<^verbatim>\<open>view\<close> and \<^verbatim>\<open>delete\<close>. The functions of the standard
  library that the source calls (\<^verbatim>\<open>json.dump\<close>, \<^verbatim>\<open>json.load\<close>, \<^verbatim>\<open>str.strip\<close>,
  \<^verbatim>\<open>str.lower\<close>, \<^verbatim>\<open>datetime.isoformat\<close>, \<^verbatim>\<open>Path.with_suffix\<close>) are modelled as CPython
  implements them. The source is taken as an interpreter runs it that accepts it: the
  f-string of the \<^verbatim>\<open>search\<close> branch of \<^verbatim>\<open>main\<close> has a backslash inside a replacement
  field, which Python accepts from version 3.12 on.
\<close>

section \<open>Python values held by the store\<close>

text \<open>
  \<^verbatim>\<open>load_store\<close> returns whatever \<^verbatim>\<open>json.load\<close> builds: \<^verbatim>\<open>None\<close>, booleans, integers,
  strings, lists and dicts with string keys. A dict is an association list in insertion
  order (Python dicts keep it, and \<^verbatim>\<open>json.dump\<close> writes in that order). Floating-point
  numbers are not part of the model: where the source would build one, the model answers
  \<open>OutOfModel\<close>. A character is one of the code points 0 to 255; a code point above
  that range is \<open>OutOfModel\<close> as well.
\<close>

datatype json =
    JNull
  | JBool bool
  | JInt int
  | JStr string
  | JArr "json list"
  | JObj "(string \<times> json) list"

datatype error =
    KeyError
  | TypeError
  | AttributeError
  | JSONDecodeError
  | FileNotFoundError
  | OutOfModel
  | OutOfFuel

subsection \<open>Dict operations\<close>

text \<open>\<^verbatim>\<open>d.get(k)\<close> on the association list: the first (and, in a dict, only) entry.\<close>

fun dict_get :: "(string \<times> json) list \<Rightarrow> string \<Rightarrow> json option" where
  "dict_get [] k = None"
| "dict_get ((k', v) # kvs) k = (if k' = k then Some v else dict_get kvs k)"

text \<open>\<^verbatim>\<open>d[k] = v\<close>: an existing key keeps its position, a new key goes to the end.\<close>

fun dict_set :: "(string \<times> json) list \<Rightarrow> string \<Rightarrow> json \<Rightarrow> (string \<times> json) list" where
  "dict_set [] k v = [(k, v)]"
| "dict_set ((k', v') # kvs) k v =
     (if k' = k then (k', v) # kvs else (k', v') # dict_set kvs k v)"

text \<open>\<^verbatim>\<open>dict(pairs)\<close>: the pairs are inserted from left to right.\<close>

definition dict_of_pairs :: "(string \<times> json) list \<Rightarrow> (string \<times> json) list" where
  "dict_of_pairs pairs = foldl (\<lambda>d kv. dict_set d (fst kv) (snd kv)) [] pairs"

text \<open>A value is a Python value when no dict in it has a key twice.\<close>

fun wf_json :: "json \<Rightarrow> bool" where
  "wf_json (JArr xs) = list_all wf_json xs"
| "wf_json (JObj kvs) = (distinct (map fst kvs) \<and> list_all (\<lambda>kv. wf_json (snd kv)) kvs)"
| "wf_json _ = True"

section \<open>\<^verbatim>\<open>json.dump(data, f, ensure_ascii=False, indent=2)\<close>\<close>

definition dq :: char where
  "dq = CHR 0x22"

definition bsl :: char where
  "bsl = CHR 0x5C"

definition digit_char :: "nat \<Rightarrow> char" where
  "digit_char d = char_of (48 + d)"

fun nat_repr :: "nat \<Rightarrow> string" where
  "nat_repr n = (if n < 10 then [digit_char n] else nat_repr (n div 10) @ [digit_char (n mod 10)])"

declare nat_repr.simps [simp del]

text \<open>\<^verbatim>\<open>int.__repr__\<close>: decimal, with a minus sign for a negative number.\<close>

definition int_repr :: "int \<Rightarrow> string" where
  "int_repr i = (if i < 0 then CHR ''-'' # nat_repr (nat (- i)) else nat_repr (nat i))"

definition hex_char :: "nat \<Rightarrow> char" where
  "hex_char d = (if d < 10 then char_of (48 + d) else char_of (87 + d))"

text \<open>
  \<^verbatim>\<open>ESCAPE_DCT\<close> of \<^verbatim>\<open>json.encoder\<close>: the backslash, the double quote, the five short
  escapes, and \<^verbatim>\<open>\u00xx\<close> for every other character below 0x20. With
  \<^verbatim>\<open>ensure_ascii=False\<close> every other character is written as it is.
\<close>

definition escape_char :: "char \<Rightarrow> string" where
  "escape_char c =
     (if c = bsl then [bsl, bsl]
      else if c = dq then [bsl, dq]
      else if c = CHR 0x08 then [bsl, CHR ''b'']
      else if c = CHR 0x0C then [bsl, CHR ''f'']
      else if c = CHR 0x0A then [bsl, CHR ''n'']
      else if c = CHR 0x0D then [bsl, CHR ''r'']
      else if c = CHR 0x09 then [bsl, CHR ''t'']
      else if (of_char c :: nat) < 32 then
        [bsl, CHR ''u'', CHR ''0'', CHR ''0'',
         hex_char ((of_char c :: nat) div 16), hex_char ((of_char c :: nat) mod 16)]
      else [c])"

definition encode_basestring :: "string \<Rightarrow> string" where
  "encode_basestring s = dq # concat (map escape_char s) @ [dq]"

text \<open>\<^verbatim>\<open>'\n' + _indent * level\<close> with \<^verbatim>\<open>_indent = ' ' * 2\<close>.\<close>

definition newline_indent :: "nat \<Rightarrow> string" where
  "newline_indent level = CHR 0x0A # replicate (2 * level) (CHR '' '')"

text \<open>\<^verbatim>\<open>sep.join(xs)\<close>.\<close>

fun join :: "string \<Rightarrow> string list \<Rightarrow> string" where
  "join sep [] = []"
| "join sep [x] = x"
| "join sep (x # y # ys) = x @ sep @ join sep (y # ys)"

text \<open>
  \<^verbatim>\<open>_iterencode\<close>, \<^verbatim>\<open>_iterencode_list\<close> and \<^verbatim>\<open>_iterencode_dict\<close>, with the chunks they yield
  concatenated. With an indent the item separator is \<^verbatim>\<open>','\<close> followed by the newline and
  the indentation of the level, and the key separator is \<^verbatim>\<open>': '\<close>.
\<close>

fun iterencode :: "nat \<Rightarrow> json \<Rightarrow> string" where
  "iterencode level JNull = ''null''"
| "iterencode level (JBool b) = (if b then ''true'' else ''false'')"
| "iterencode level (JInt i) = int_repr i"
| "iterencode level (JStr s) = encode_basestring s"
| "iterencode level (JArr xs) =
     (if xs = [] then ''[]''
      else ''['' @ newline_indent (Suc level)
        @ join (CHR '','' # newline_indent (Suc level)) (map (iterencode (Suc level)) xs)
        @ newline_indent level @ '']'')"
| "iterencode level (JObj kvs) =
     (if kvs = [] then ''{}''
      else ''{'' @ newline_indent (Suc level)
        @ join (CHR '','' # newline_indent (Suc level))
            (map (\<lambda>kv. encode_basestring (fst kv) @ '': '' @ iterencode (Suc level) (snd kv)) kvs)
        @ newline_indent level @ ''}'')"

definition json_dumps :: "json \<Rightarrow> string" where
  "json_dumps v = iterencode 0 v"

section \<open>\<^verbatim>\<open>json.load\<close>\<close>

text \<open>
  The decoder of \<^verbatim>\<open>json.decoder\<close> and \<^verbatim>\<open>json.scanner\<close>, on the text that is left to
  read instead of an index into it. Every \<^verbatim>\<open>JSONDecodeError\<close> of the source is the value
  \<open>Inl JSONDecodeError\<close>.
\<close>

text \<open>\<^verbatim>\<open>WHITESPACE = re.compile(r'[ \t\n\r]*')\<close>.\<close>

definition is_ws :: "char \<Rightarrow> bool" where
  "is_ws c = (c = CHR '' '' \<or> c = CHR 0x09 \<or> c = CHR 0x0A \<or> c = CHR 0x0D)"

definition skip_ws :: "string \<Rightarrow> string" where
  "skip_ws s = dropWhile is_ws s"

definition is_digit :: "char \<Rightarrow> bool" where
  "is_digit c = (48 \<le> (of_char c :: nat) \<and> (of_char c :: nat) \<le> 57)"

definition digit_val :: "char \<Rightarrow> nat" where
  "digit_val c = of_char c - 48"

text \<open>\<^verbatim>\<open>int(digits)\<close> for a string of decimal digits.\<close>

definition nat_of_digits :: "string \<Rightarrow> nat" where
  "nat_of_digits ds = foldl (\<lambda>acc c. 10 * acc + digit_val c) 0 ds"

definition hex_val :: "char \<Rightarrow> nat option" where
  "hex_val c =
     (let n = (of_char c :: nat) in
      if 48 \<le> n \<and> n \<le> 57 then Some (n - 48)
      else if 97 \<le> n \<and> n \<le> 102 then Some (n - 87)
      else if 65 \<le> n \<and> n \<le> 70 then Some (n - 55)
      else None)"

text \<open>
  \<^verbatim>\<open>_decode_uXXXX\<close>: the four characters after the \<^verbatim>\<open>u\<close> must be hexadecimal digits.
\<close>

definition decode_uXXXX :: "string \<Rightarrow> error + nat" where
  "decode_uXXXX s =
     (case s of
        a # b # c # d # _ \<Rightarrow>
          (case (hex_val a, hex_val b, hex_val c, hex_val d) of
             (Some x3, Some x2, Some x1, Some x0) \<Rightarrow> Inr (((x3 * 16 + x2) * 16 + x1) * 16 + x0)
           | _ \<Rightarrow> Inl JSONDecodeError)
      | _ \<Rightarrow> Inl JSONDecodeError)"

text \<open>The table \<^verbatim>\<open>BACKSLASH\<close> of the one-letter escapes.\<close>

definition backslash :: "char \<Rightarrow> char option" where
  "backslash esc =
     (if esc = dq then Some dq
      else if esc = bsl then Some bsl
      else if esc = CHR ''/'' then Some (CHR ''/'')
      else if esc = CHR ''b'' then Some (CHR 0x08)
      else if esc = CHR ''f'' then Some (CHR 0x0C)
      else if esc = CHR ''n'' then Some (CHR 0x0A)
      else if esc = CHR ''r'' then Some (CHR 0x0D)
      else if esc = CHR ''t'' then Some (CHR 0x09)
      else None)"

definition push_char :: "char \<Rightarrow> error + string \<times> string \<Rightarrow> error + string \<times> string" where
  "push_char c r = (case r of Inl e \<Rightarrow> Inl e | Inr (str, rest) \<Rightarrow> Inr (c # str, rest))"

text \<open>
  \<^verbatim>\<open>scanstring\<close> in strict mode, from the character after the opening quote: the text up
  to the closing quote, with the escapes decoded. A raw character below 0x20 is an error.
  An escape \<^verbatim>\<open>\uXXXX\<close> above 0xff (a surrogate pair is one) has no character in the model.
\<close>

fun scanstring :: "string \<Rightarrow> error + string \<times> string" where
  "scanstring [] = Inl JSONDecodeError"
| "scanstring (c # s) =
     (if c = dq then Inr ([], s)
      else if c = bsl then
        (case s of
           [] \<Rightarrow> Inl JSONDecodeError
         | esc # s' \<Rightarrow>
             if esc = CHR ''u'' then
               (case decode_uXXXX s' of
                  Inl e \<Rightarrow> Inl e
                | Inr uni \<Rightarrow>
                    if uni < 256 then push_char (char_of uni) (scanstring (drop 4 s'))
                    else Inl OutOfModel)
             else
               (case backslash esc of
                  None \<Rightarrow> Inl JSONDecodeError
                | Some ch \<Rightarrow> push_char ch (scanstring s')))
      else if (of_char c :: nat) < 32 then Inl JSONDecodeError
      else push_char c (scanstring s))"

text \<open>
  \<^verbatim>\<open>NUMBER_RE\<close>, \<^verbatim>\<open>(-?(?:0|[1-9]\d*))(\.\d+)?([eE][-+]?\d+)?\<close>: \<open>None\<close> when the text does
  not start with a number, the integer part and the text after it otherwise.
\<close>

definition match_integer :: "string \<Rightarrow> (string \<times> string) option" where
  "match_integer s =
     (case s of
        [] \<Rightarrow> None
      | d # t \<Rightarrow>
          if d = CHR ''0'' then Some ([d], t)
          else if is_digit d then Some (takeWhile is_digit s, dropWhile is_digit s)
          else None)"

definition has_frac :: "string \<Rightarrow> bool" where
  "has_frac s = (case s of c # d # _ \<Rightarrow> c = CHR ''.'' \<and> is_digit d | _ \<Rightarrow> False)"

definition has_exp :: "string \<Rightarrow> bool" where
  "has_exp s =
     (case s of
        e # t \<Rightarrow>
          (e = CHR ''e'' \<or> e = CHR ''E'') \<and>
          (case t of
             [] \<Rightarrow> False
           | c # u \<Rightarrow>
               if c = CHR ''-'' \<or> c = CHR ''+'' then (case u of [] \<Rightarrow> False | d # _ \<Rightarrow> is_digit d)
               else is_digit c)
      | [] \<Rightarrow> False)"

text \<open>
  The number branch of \<^verbatim>\<open>_scan_once\<close>: with a fraction or an exponent the source builds a
  float, otherwise \<^verbatim>\<open>int(integer)\<close>.
\<close>

definition match_number :: "string \<Rightarrow> (error + json \<times> string) option" where
  "match_number s =
     (let neg = (case s of [] \<Rightarrow> False | c # _ \<Rightarrow> c = CHR ''-'');
          s1 = (if neg then tl s else s)
      in case match_integer s1 of
           None \<Rightarrow> None
         | Some (ds, rest) \<Rightarrow>
             if has_frac rest \<or> has_exp rest then Some (Inl OutOfModel)
             else Some (Inr (JInt (if neg then - int (nat_of_digits ds) else int (nat_of_digits ds)), rest)))"

text \<open>
  The branches of \<^verbatim>\<open>_scan_once\<close> for the literals and the numbers, in the order of the
  source; \<^verbatim>\<open>NaN\<close>, \<^verbatim>\<open>Infinity\<close> and \<^verbatim>\<open>-Infinity\<close> are floats.
\<close>

definition scan_atom :: "string \<Rightarrow> error + json \<times> string" where
  "scan_atom s =
     (if take 4 s = ''null'' then Inr (JNull, drop 4 s)
      else if take 4 s = ''true'' then Inr (JBool True, drop 4 s)
      else if take 5 s = ''false'' then Inr (JBool False, drop 5 s)
      else
        (case match_number s of
           Some r \<Rightarrow> r
         | None \<Rightarrow>
             if take 3 s = ''NaN'' \<or> take 8 s = ''Infinity'' \<or> take 9 s = ''-Infinity''
             then Inl OutOfModel
             else Inl JSONDecodeError))"

text \<open>
  \<^verbatim>\<open>_scan_once\<close>, and the loops of \<^verbatim>\<open>JSONArray\<close> and \<^verbatim>\<open>JSONObject\<close>. The first argument
  bounds the number of nested calls: two calls in a row read at least one character, so
  twice the length of the text is enough, and \<open>json_loads\<close> below starts with one more
  (\<open>OutOfFuel\<close> is never its answer). The recursion limit of the interpreter is not
  modelled.
\<close>

fun scan_once :: "nat \<Rightarrow> string \<Rightarrow> error + json \<times> string"
  and JSONArray_loop :: "nat \<Rightarrow> json list \<Rightarrow> string \<Rightarrow> error + json \<times> string"
  and JSONObject_loop :: "nat \<Rightarrow> (string \<times> json) list \<Rightarrow> string \<Rightarrow> error + json \<times> string"
where
  "scan_once 0 s = Inl OutOfFuel"
| "scan_once (Suc n) s =
     (case s of
        [] \<Rightarrow> Inl JSONDecodeError
      | c # cs \<Rightarrow>
          if c = dq then
            (case scanstring cs of
               Inl e \<Rightarrow> Inl e
             | Inr (str, rest) \<Rightarrow> Inr (JStr str, rest))
          else if c = CHR ''{'' then
            (case skip_ws cs of
               [] \<Rightarrow> Inl JSONDecodeError
             | c1 # r1 \<Rightarrow>
                 if c1 = CHR ''}'' then Inr (JObj [], r1)
                 else if c1 = dq then JSONObject_loop n [] r1
                 else Inl JSONDecodeError)
          else if c = CHR ''['' then
            (case skip_ws cs of
               [] \<Rightarrow> Inl JSONDecodeError
             | c1 # r1 \<Rightarrow>
                 if c1 = CHR '']'' then Inr (JArr [], r1)
                 else JSONArray_loop n [] (c1 # r1))
          else scan_atom s)"
| "JSONArray_loop 0 values s = Inl OutOfFuel"
| "JSONArray_loop (Suc n) values s =
     (case scan_once n s of
        Inl e \<Rightarrow> Inl e
      | Inr (v, rest) \<Rightarrow>
          (case skip_ws rest of
             [] \<Rightarrow> Inl JSONDecodeError
           | c # r \<Rightarrow>
               if c = CHR '']'' then Inr (JArr (values @ [v]), r)
               else if c = CHR '','' then JSONArray_loop n (values @ [v]) (skip_ws r)
               else Inl JSONDecodeError))"
| "JSONObject_loop 0 pairs s = Inl OutOfFuel"
| "JSONObject_loop (Suc n) pairs s =
     (case scanstring s of
        Inl e \<Rightarrow> Inl e
      | Inr (key, r) \<Rightarrow>
          (case skip_ws r of
             [] \<Rightarrow> Inl JSONDecodeError
           | c # r1 \<Rightarrow>
               if c \<noteq> CHR '':'' then Inl JSONDecodeError
               else
                 (case scan_once n (skip_ws r1) of
                    Inl e \<Rightarrow> Inl e
                  | Inr (v, r2) \<Rightarrow>
                      (case skip_ws r2 of
                         [] \<Rightarrow> Inl JSONDecodeError
                       | c2 # r3 \<Rightarrow>
                           if c2 = CHR ''}'' then Inr (JObj (dict_of_pairs (pairs @ [(key, v)])), r3)
                           else if c2 = CHR '','' then
                             (case skip_ws r3 of
                                [] \<Rightarrow> Inl JSONDecodeError
                              | c3 # r4 \<Rightarrow>
                                  if c3 = dq then JSONObject_loop n (pairs @ [(key, v)]) r4
                                  else Inl JSONDecodeError)
                           else Inl JSONDecodeError))))"

text \<open>
  \<^verbatim>\<open>JSONDecoder.decode\<close>: white space, one value, white space, and nothing after it
  (\<^verbatim>\<open>Extra data\<close> otherwise).
\<close>

definition json_loads :: "string \<Rightarrow> error + json" where
  "json_loads s =
     (case scan_once (Suc (2 * length s)) (skip_ws s) of
        Inl e \<Rightarrow> Inl e
      | Inr (v, rest) \<Rightarrow> if skip_ws rest = [] then Inr v else Inl JSONDecodeError)"

section \<open>String methods\<close>

text \<open>
  \<^verbatim>\<open>str.isspace\<close> on the code points 0 to 255: the ASCII controls 9 to 13 and 28 to 31,
  the space, NEL (0x85) and the no-break space (0xa0).
\<close>

definition isspace :: "char \<Rightarrow> bool" where
  "isspace c =
     (let n = (of_char c :: nat)
      in (9 \<le> n \<and> n \<le> 13) \<or> (28 \<le> n \<and> n \<le> 32) \<or> n = 133 \<or> n = 160)"

text \<open>\<^verbatim>\<open>s.strip()\<close>: the white space at both ends is removed.\<close>

definition strip :: "string \<Rightarrow> string" where
  "strip s = rev (dropWhile isspace (rev (dropWhile isspace s)))"

text \<open>
  \<^verbatim>\<open>s.lower()\<close> on the code points 0 to 255: the letters A to Z, and 0xc0 to 0xde
  without the multiplication sign 0xd7, move up by 32.
\<close>

definition lower_char :: "char \<Rightarrow> char" where
  "lower_char c =
     (let n = (of_char c :: nat)
      in if (65 \<le> n \<and> n \<le> 90) \<or> (192 \<le> n \<and> n \<le> 222 \<and> n \<noteq> 215) then char_of (n + 32) else c)"

definition lower :: "string \<Rightarrow> string" where
  "lower s = map lower_char s"

definition startswith :: "string \<Rightarrow> string \<Rightarrow> bool" where
  "startswith s q = (take (length q) s = q)"

text \<open>\<^verbatim>\<open>q in s\<close> for two strings: \<open>q\<close> starts at some position of \<open>s\<close>.\<close>

fun str_contains :: "string \<Rightarrow> string \<Rightarrow> bool" where
  "str_contains [] q = (q = [])"
| "str_contains (c # s) q = (startswith (c # s) q \<or> str_contains s q)"

text \<open>
  \<^verbatim>\<open>datetime.utcnow()\<close> gives a naive \<^verbatim>\<open>datetime\<close>; \<^verbatim>\<open>isoformat()\<close> writes it as
  \<^verbatim>\<open>YYYY-MM-DDTHH:MM:SS\<close>, followed by \<^verbatim>\<open>.ffffff\<close> when the microseconds are not zero.
\<close>

record datetime =
  year :: nat
  month :: nat
  day :: nat
  hour :: nat
  minute :: nat
  second :: nat
  microsecond :: nat

definition zero_pad :: "nat \<Rightarrow> nat \<Rightarrow> string" where
  "zero_pad w n = replicate (w - length (nat_repr n)) (CHR ''0'') @ nat_repr n"

definition isoformat :: "datetime \<Rightarrow> string" where
  "isoformat dt =
     zero_pad 4 (year dt) @ ''-'' @ zero_pad 2 (month dt) @ ''-'' @ zero_pad 2 (day dt) @ ''T''
       @ zero_pad 2 (hour dt) @ '':'' @ zero_pad 2 (minute dt) @ '':'' @ zero_pad 2 (second dt)
       @ (if microsecond dt \<noteq> 0 then ''.'' @ zero_pad 6 (microsecond dt) else [])"

section \<open>Dynamic typing\<close>

text \<open>
  \<^verbatim>\<open>for x in v\<close>: a list gives its elements, a string its characters, a dict its keys;
  the other values are not iterable.
\<close>

fun py_iter :: "json \<Rightarrow> error + json list" where
  "py_iter (JArr xs) = Inr xs"
| "py_iter (JStr s) = Inr (map (\<lambda>c. JStr [c]) s)"
| "py_iter (JObj kvs) = Inr (map (\<lambda>kv. JStr (fst kv)) kvs)"
| "py_iter _ = Inl TypeError"

text \<open>
  \<^verbatim>\<open>v == k\<close> for an integer \<open>k\<close>: \<^verbatim>\<open>bool\<close> is a subclass of \<^verbatim>\<open>int\<close>, so \<^verbatim>\<open>True == 1\<close>
  and \<^verbatim>\<open>False == 0\<close>; a value of another type is never equal to an integer.
\<close>

fun py_eq_int :: "json \<Rightarrow> int \<Rightarrow> bool" where
  "py_eq_int (JInt i) k = (i = k)"
| "py_eq_int (JBool b) k = ((if b then 1 else 0) = k)"
| "py_eq_int _ k = False"

text \<open>\<^verbatim>\<open>v + 1\<close>.\<close>

fun py_add1 :: "json \<Rightarrow> error + json" where
  "py_add1 (JInt i) = Inr (JInt (i + 1))"
| "py_add1 (JBool b) = Inr (JInt ((if b then 1 else 0) + 1))"
| "py_add1 _ = Inl TypeError"

text \<open>A list comprehension whose element expression can raise: the first error ends it.\<close>

fun map_result :: "('a \<Rightarrow> error + 'b) \<Rightarrow> 'a list \<Rightarrow> error + 'b list" where
  "map_result f [] = Inr []"
| "map_result f (x # xs) =
     (case f x of
        Inl e \<Rightarrow> Inl e
      | Inr y \<Rightarrow> (case map_result f xs of Inl e \<Rightarrow> Inl e | Inr ys \<Rightarrow> Inr (y # ys)))"

fun filter_result :: "('a \<Rightarrow> error + bool) \<Rightarrow> 'a list \<Rightarrow> error + 'a list" where
  "filter_result f [] = Inr []"
| "filter_result f (x # xs) =
     (case f x of
        Inl e \<Rightarrow> Inl e
      | Inr b \<Rightarrow>
          (case filter_result f xs of
             Inl e \<Rightarrow> Inl e
           | Inr ys \<Rightarrow> Inr (if b then x # ys else ys)))"

text \<open>\<^verbatim>\<open>any(f(x) for x in xs)\<close> stops at the first true element, or at the first error.\<close>

fun any_result :: "('a \<Rightarrow> error + bool) \<Rightarrow> 'a list \<Rightarrow> error + bool" where
  "any_result f [] = Inr False"
| "any_result f (x # xs) =
     (case f x of
        Inl e \<Rightarrow> Inl e
      | Inr b \<Rightarrow> if b then Inr True else any_result f xs)"

section \<open>The store file\<close>

text \<open>
  A path is the list of its components and the file system maps the paths of the files
  to their text. Directories are not modelled (\<^verbatim>\<open>APP_DIR.mkdir\<close> creates no file), and
  \<open>home\<close> stands for \<^verbatim>\<open>Path.home()\<close>.
\<close>

type_synonym path = "string list"

type_synonym fs = "path \<Rightarrow> string option"

definition home :: path where
  "home = [''home'', ''user'']"

definition APP_DIR :: path where
  "APP_DIR = home @ [''.snapnotes'']"

definition NOTES_FILE :: path where
  "NOTES_FILE = APP_DIR @ [''notes.json'']"

text \<open>\<^verbatim>\<open>name.rfind('.')\<close>, \<open>None\<close> for the source's \<open>-1\<close>.\<close>

definition rfind_dot :: "string \<Rightarrow> nat option" where
  "rfind_dot name =
     (let j = length (takeWhile (\<lambda>c. c \<noteq> CHR ''.'') (rev name))
      in if j = length name then None else Some (length name - 1 - j))"

text \<open>\<^verbatim>\<open>PurePath.suffix\<close>: from the last dot, when it is neither the first nor the last character.\<close>

definition path_suffix :: "string \<Rightarrow> string" where
  "path_suffix name =
     (case rfind_dot name of
        None \<Rightarrow> []
      | Some i \<Rightarrow> if 0 < i \<and> i < length name - 1 then drop i name else [])"

text \<open>
  \<^verbatim>\<open>PurePath.with_suffix\<close>: the suffix of the last component is replaced. (The source
  raises \<^verbatim>\<open>ValueError\<close> for a path without a name; \<open>NOTES_FILE\<close> has one.)
\<close>

definition with_suffix :: "path \<Rightarrow> string \<Rightarrow> path" where
  "with_suffix p suffix =
     (case rev p of
        [] \<Rightarrow> []
      | name # _ \<Rightarrow> butlast p @ [take (length name - length (path_suffix name)) name @ suffix])"


definition initial_store :: json where
  "initial_store = JObj [(''next_id'', JInt 1), (''notes'', JArr [])]"

definition ensure_store :: "fs \<Rightarrow> fs" where
  "ensure_store files =
     (if files NOTES_FILE = None then files(NOTES_FILE \<mapsto> json_dumps initial_store) else files)"

definition load_store :: "fs \<Rightarrow> (error + json) \<times> fs" where
  "load_store files =
     (let files' = ensure_store files
      in (case files' NOTES_FILE of
            None \<Rightarrow> Inl FileNotFoundError
          | Some text \<Rightarrow> json_loads text, files'))"

text \<open>
  \<^verbatim>\<open>shutil.move(src, dst)\<close> for a file \<open>src\<close> and another path \<open>dst\<close> that is no
  directory: afterwards \<open>dst\<close> holds the content of \<open>src\<close> and \<open>src\<close> is gone. (For a
  missing \<open>src\<close> the source raises \<^verbatim>\<open>FileNotFoundError\<close>; \<^verbatim>\<open>save_store\<close> has just
  written it.)
\<close>

definition shutil_move :: "path \<Rightarrow> path \<Rightarrow> fs \<Rightarrow> fs" where
  "shutil_move src dst files =
     (case files src of
        None \<Rightarrow> files
      | Some text \<Rightarrow> (files(src := None))(dst \<mapsto> text))"

definition save_store :: "json \<Rightarrow> fs \<Rightarrow> fs" where
  "save_store data files =
     (let tmp = with_suffix NOTES_FILE ''.tmp''
      in shutil_move tmp NOTES_FILE (files(tmp \<mapsto> json_dumps data)))"



section \<open>Notes\<close>

text \<open>
  The dataclass \<^verbatim>\<open>Note\<close>. Python checks no field type when it builds one, so every field
  holds any value.
\<close>

record Note =
  note_id :: json
  title :: json
  body :: json
  tags :: json
  created_at :: json

text \<open>
  \<^verbatim>\<open>Note(**n)\<close>: \<open>n\<close> must be a dict that has the five field names as its keys and no
  other key; the source raises \<^verbatim>\<open>TypeError\<close> otherwise.
\<close>

definition note_of_dict :: "json \<Rightarrow> error + Note" where
  "note_of_dict n =
     (case n of
        JObj kvs \<Rightarrow>
          (case (dict_get kvs ''id'', dict_get kvs ''title'', dict_get kvs ''body'',
                 dict_get kvs ''tags'', dict_get kvs ''created_at'') of
             (Some i, Some t, Some b, Some g, Some c) \<Rightarrow>
               if length kvs = 5
               then Inr \<lparr>note_id = i, title = t, body = b, tags = g, created_at = c\<rparr>
               else Inl TypeError
           | _ \<Rightarrow> Inl TypeError)
      | _ \<Rightarrow> Inl TypeError)"

text \<open>\<^verbatim>\<open>asdict(note)\<close>: the fields in the order of their declaration.\<close>

definition asdict :: "Note \<Rightarrow> json" where
  "asdict n =
     JObj [(''id'', note_id n), (''title'', title n), (''body'', body n), (''tags'', tags n),
           (''created_at'', created_at n)]"

text \<open>\<^verbatim>\<open>data.get(key, default)\<close>; a value that is not a dict has no \<^verbatim>\<open>get\<close>.\<close>

definition py_get :: "json \<Rightarrow> string \<Rightarrow> json \<Rightarrow> error + json" where
  "py_get d k dflt =
     (case d of
        JObj kvs \<Rightarrow> Inr (case dict_get kvs k of None \<Rightarrow> dflt | Some v \<Rightarrow> v)
      | _ \<Rightarrow> Inl AttributeError)"

definition add_note :: "datetime \<Rightarrow> string \<Rightarrow> string \<Rightarrow> string list option \<Rightarrow> fs \<Rightarrow> (error + Note) \<times> fs" where
  "add_note now title_arg body_arg tags_arg files =
     (case load_store files of
        (Inl e, files') \<Rightarrow> (Inl e, files')
      | (Inr data, files') \<Rightarrow>
          (case data of
             JObj kvs \<Rightarrow>
               (let nid = (case dict_get kvs ''next_id'' of None \<Rightarrow> JInt 1 | Some v \<Rightarrow> v);
                    n = \<lparr>note_id = nid,
                         title = JStr (strip title_arg),
                         body = JStr (strip body_arg),
                         tags = JArr (map (\<lambda>t. JStr (strip t))
                                  (filter (\<lambda>t. strip t \<noteq> [])
                                     (case tags_arg of None \<Rightarrow> [] | Some ts \<Rightarrow> ts))),
                         created_at = JStr (isoformat now @ ''Z'')\<rparr>
                in case dict_get kvs ''notes'' of
                     None \<Rightarrow> (Inl KeyError, files')
                   | Some (JArr ns) \<Rightarrow>
                       (case py_add1 nid of
                          Inl e \<Rightarrow> (Inl e, files')
                        | Inr nid' \<Rightarrow>
                            (Inr n,
                             save_store
                               (JObj (dict_set (dict_set kvs ''notes'' (JArr (ns @ [asdict n])))
                                        ''next_id'' nid'))
                               files'))
                   | Some _ \<Rightarrow> (Inl AttributeError, files'))
           | _ \<Rightarrow> (Inl AttributeError, files')))"

definition list_notes :: "fs \<Rightarrow> (error + Note list) \<times> fs" where
  "list_notes files =
     (case load_store files of
        (Inl e, files') \<Rightarrow> (Inl e, files')
      | (Inr data, files') \<Rightarrow>
          (case py_get data ''notes'' (JArr []) of
             Inl e \<Rightarrow> (Inl e, files')
           | Inr v \<Rightarrow>
               (case py_iter v of
                  Inl e \<Rightarrow> (Inl e, files')
                | Inr ns \<Rightarrow> (map_result note_of_dict ns, files'))))"

definition find_note :: "int \<Rightarrow> fs \<Rightarrow> (error + Note option) \<times> fs" where
  "find_note k files =
     (case list_notes files of
        (Inl e, files') \<Rightarrow> (Inl e, files')
      | (Inr ns, files') \<Rightarrow> (Inr (find (\<lambda>n. py_eq_int (note_id n) k) ns), files'))"

text \<open>
  The test \<^verbatim>\<open>n.get("id") != note_id\<close> of \<^verbatim>\<open>delete_note\<close>: a dict without the key gives
  \<^verbatim>\<open>None\<close>, which differs from every integer.
\<close>

definition keeps :: "int \<Rightarrow> json \<Rightarrow> error + bool" where
  "keeps k n =
     (case n of
        JObj kvs \<Rightarrow> Inr (case dict_get kvs ''id'' of None \<Rightarrow> True | Some v \<Rightarrow> \<not> py_eq_int v k)
      | _ \<Rightarrow> Inl AttributeError)"

definition delete_note :: "int \<Rightarrow> fs \<Rightarrow> (error + bool) \<times> fs" where
  "delete_note k files =
     (case load_store files of
        (Inl e, files') \<Rightarrow> (Inl e, files')
      | (Inr data, files') \<Rightarrow>
          (case py_get data ''notes'' (JArr []) of
             Inl e \<Rightarrow> (Inl e, files')
           | Inr v \<Rightarrow>
               (case py_iter v of
                  Inl e \<Rightarrow> (Inl e, files')
                | Inr notes \<Rightarrow>
                    (case filter_result (keeps k) notes of
                       Inl e \<Rightarrow> (Inl e, files')
                     | Inr new_notes \<Rightarrow>
                         if length new_notes = length notes then (Inr False, files')
                         else
                           (Inr True,
                            save_store
                              (case data of
                                 JObj kvs \<Rightarrow> JObj (dict_set kvs ''notes'' (JArr new_notes))
                               | _ \<Rightarrow> data)
                              files')))))"

text \<open>\<^verbatim>\<open>q in v.lower()\<close>: only a string has \<^verbatim>\<open>lower\<close>.\<close>

definition lower_contains :: "string \<Rightarrow> json \<Rightarrow> error + bool" where
  "lower_contains q v =
     (case v of
        JStr s \<Rightarrow> Inr (str_contains (lower s) q)
      | _ \<Rightarrow> Inl AttributeError)"

text \<open>
  The condition of \<^verbatim>\<open>search_notes\<close>: \<^verbatim>\<open>or\<close> evaluates its right operand only when the
  left one is false.
\<close>

definition note_matches :: "string \<Rightarrow> Note \<Rightarrow> error + bool" where
  "note_matches q n =
     (case lower_contains q (title n) of
        Inl e \<Rightarrow> Inl e
      | Inr True \<Rightarrow> Inr True
      | Inr False \<Rightarrow>
          (case lower_contains q (body n) of
             Inl e \<Rightarrow> Inl e
           | Inr True \<Rightarrow> Inr True
           | Inr False \<Rightarrow>
               (case py_iter (tags n) of
                  Inl e \<Rightarrow> Inl e
                | Inr ts \<Rightarrow> any_result (lower_contains q) ts)))"

definition search_notes :: "string \<Rightarrow> fs \<Rightarrow> (error + Note list) \<times> fs" where
  "search_notes query files =
     (case list_notes files of
        (Inl e, files') \<Rightarrow> (Inl e, files')
      | (Inr ns, files') \<Rightarrow> (filter_result (note_matches (lower query)) ns, files'))"

section \<open>Export\<close>

text \<open>
  \<^verbatim>\<open>format(v, '')\<close> inside an f-string. The \<^verbatim>\<open>repr\<close> of a list or of a dict is not
  modelled.
\<close>

fun py_format :: "json \<Rightarrow> error + string" where
  "py_format (JStr s) = Inr s"
| "py_format (JInt i) = Inr (int_repr i)"
| "py_format (JBool b) = Inr (if b then ''True'' else ''False'')"
| "py_format JNull = Inr ''None''"
| "py_format _ = Inl OutOfModel"

text \<open>The truth value of \<^verbatim>\<open>if v:\<close>.\<close>

fun py_bool :: "json \<Rightarrow> bool" where
  "py_bool JNull = False"
| "py_bool (JBool b) = b"
| "py_bool (JInt i) = (i \<noteq> 0)"
| "py_bool (JStr s) = (s \<noteq> [])"
| "py_bool (JArr xs) = (xs \<noteq> [])"
| "py_bool (JObj kvs) = (kvs \<noteq> [])"

definition str_of :: "json \<Rightarrow> error + string" where
  "str_of v = (case v of JStr s \<Rightarrow> Inr s | _ \<Rightarrow> Inl TypeError)"

text \<open>\<^verbatim>\<open>sep.join(v)\<close>: \<open>v\<close> must be iterable and every item a string.\<close>

definition str_join :: "string \<Rightarrow> json \<Rightarrow> error + string" where
  "str_join sep v =
     (case py_iter v of
        Inl e \<Rightarrow> Inl e
      | Inr xs \<Rightarrow> (case map_result str_of xs of Inl e \<Rightarrow> Inl e | Inr ss \<Rightarrow> Inr (join sep ss)))"

definition nl :: string where
  "nl = [CHR 0x0A]"

text \<open>
  The four \<^verbatim>\<open>f.write\<close> calls of the Markdown branch for one note: the text that reached
  the file, and the exception that ended the writing, if any.
\<close>

definition md_note :: "Note \<Rightarrow> string \<times> error option" where
  "md_note n =
     (case py_format (title n) of
        Inl e \<Rightarrow> ([], Some e)
      | Inr t \<Rightarrow>
          (case py_format (note_id n) of
             Inl e \<Rightarrow> ([], Some e)
           | Inr i \<Rightarrow>
               (let w1 = ''# '' @ t @ '' (id='' @ i @ '')'' @ nl
                in case py_format (created_at n) of
                     Inl e \<Rightarrow> (w1, Some e)
                   | Inr c \<Rightarrow>
                       (let w2 = w1 @ ''_created: '' @ c @ ''_'' @ nl @ nl
                        in case (if py_bool (tags n)
                                 then (case str_join '', '' (tags n) of
                                         Inl e \<Rightarrow> Inl e
                                       | Inr j \<Rightarrow> Inr (''**tags:** '' @ j @ nl @ nl))
                                 else Inr []) of
                             Inl e \<Rightarrow> (w2, Some e)
                           | Inr w3 \<Rightarrow>
                               (case body n of
                                  JStr b \<Rightarrow> (w2 @ w3 @ b @ nl @ nl @ ''---'' @ nl @ nl, None)
                                | _ \<Rightarrow> (w2 @ w3, Some TypeError))))))"

fun md_notes :: "Note list \<Rightarrow> string \<times> error option" where
  "md_notes [] = ([], None)"
| "md_notes (n # ns) =
     (case md_note n of
        (w, Some e) \<Rightarrow> (w, Some e)
      | (w, None) \<Rightarrow> (case md_notes ns of (w', r) \<Rightarrow> (w @ w', r)))"

text \<open>
  \<^verbatim>\<open>export_notes\<close>, with the \<^verbatim>\<open>Path(path)\<close> it builds as its argument. Every format
  other than \<^verbatim>\<open>"md"\<close> takes the JSON branch.
\<close>

definition export_notes :: "path \<Rightarrow> string \<Rightarrow> fs \<Rightarrow> (error + path) \<times> fs" where
  "export_notes out fmt files =
     (case list_notes files of
        (Inl e, files') \<Rightarrow> (Inl e, files')
      | (Inr notes, files') \<Rightarrow>
          if fmt = ''md'' then
            (case md_notes notes of
               (w, Some e) \<Rightarrow> (Inl e, files'(out \<mapsto> w))
             | (w, None) \<Rightarrow> (Inr out, files'(out \<mapsto> w)))
          else (Inr out, files'(out \<mapsto> json_dumps (JObj [(''notes'', JArr (map asdict notes))]))))"

section \<open>The commands \<^verbatim>\<open>view\<close> and \<^verbatim>\<open>delete\<close>\<close>

text \<open>
  The two branches of \<^verbatim>\<open>main\<close> that look a note up by its id, on the arguments that
  \<^verbatim>\<open>argparse\<close> has parsed (\<^verbatim>\<open>id\<close> has \<^verbatim>\<open>type=int\<close>). The result is the exit code, with the
  text printed on the standard output and the file system.
\<close>

datatype command = View int | Delete int

definition view_text :: "Note \<Rightarrow> error + string" where
  "view_text n =
     (case py_format (title n) of
        Inl e \<Rightarrow> Inl e
      | Inr t \<Rightarrow>
          (case py_format (note_id n) of
             Inl e \<Rightarrow> Inl e
           | Inr i \<Rightarrow>
               (case py_format (created_at n) of
                  Inl e \<Rightarrow> Inl e
                | Inr c \<Rightarrow>
                    (case str_join '', '' (tags n) of
                       Inl e \<Rightarrow> Inl e
                     | Inr j \<Rightarrow>
                         (case py_format (body n) of
                            Inl e \<Rightarrow> Inl e
                          | Inr b \<Rightarrow>
                              Inr (t @ '' (id='' @ i @ '')'' @ nl @ ''created: '' @ c @ nl
                                   @ ''tags: '' @ j @ nl @ nl @ b))))))"

fun main :: "command \<Rightarrow> fs \<Rightarrow> (error + int) \<times> string \<times> fs" where
  "main (View k) files =
     (case find_note k files of
        (Inl e, files') \<Rightarrow> (Inl e, [], files')
      | (Inr None, files') \<Rightarrow> (Inr 1, ''Note '' @ int_repr k @ '' not found'' @ nl, files')
      | (Inr (Some n), files') \<Rightarrow>
          (case view_text n of
             Inl e \<Rightarrow> (Inl e, [], files')
           | Inr t \<Rightarrow> (Inr 0, t @ nl, files')))"
| "main (Delete k) files =
     (case delete_note k files of
        (Inl e, files') \<Rightarrow> (Inl e, [], files')
      | (Inr ok, files') \<Rightarrow> (Inr 0, (if ok then ''Deleted.'' else ''Note not found.'') @ nl, files'))"

section \<open>Sequences of operations\<close>

datatype operation =
    Add datetime string string "string list option"
  | Del int

text \<open>
  One call of \<^verbatim>\<open>add_note\<close> or \<^verbatim>\<open>delete_note\<close>: the id of the note that \<^verbatim>\<open>add_note\<close>
  returns, or \<open>None\<close> for a \<^verbatim>\<open>delete_note\<close>.
\<close>

definition perform :: "operation \<Rightarrow> fs \<Rightarrow> (error + json option) \<times> fs" where
  "perform op files =
     (case op of
        Add now t b ts \<Rightarrow>
          (case add_note now t b ts files of
             (Inl e, files') \<Rightarrow> (Inl e, files')
           | (Inr n, files') \<Rightarrow> (Inr (Some (note_id n)), files'))
      | Del k \<Rightarrow>
          (case delete_note k files of
             (Inl e, files') \<Rightarrow> (Inl e, files')
           | (Inr _, files') \<Rightarrow> (Inr None, files')))"

fun run :: "operation list \<Rightarrow> fs \<Rightarrow> (error + json option) list \<times> fs" where
  "run [] files = ([], files)"
| "run (op # ops) files =
     (case perform op files of
        (r, files') \<Rightarrow> (case run ops files' of (rs, files'') \<Rightarrow> (r # rs, files'')))"

text \<open>\<^verbatim>\<open>save_store(load_store())\<close>.\<close>

definition save_loaded :: "fs \<Rightarrow> (error + unit) \<times> fs" where
  "save_loaded files =
     (case load_store files of
        (Inl e, files') \<Rightarrow> (Inl e, files')
      | (Inr data, files') \<Rightarrow> (Inr (), save_store data files'))"

section \<open>Notions used in the statements\<close>

text \<open>The substring relation in the words of the specification.\<close>

definition is_substring :: "string \<Rightarrow> string \<Rightarrow> bool" where
  "is_substring q s = (\<exists>before after. s = before @ q @ after)"

text \<open>A stored note record that carries the id \<open>k\<close>.\<close>

definition has_id :: "int \<Rightarrow> json \<Rightarrow> bool" where
  "has_id k n =
     (case n of
        JObj kvs \<Rightarrow> (case dict_get kvs ''id'' of None \<Rightarrow> False | Some v \<Rightarrow> py_eq_int v k)
      | _ \<Rightarrow> False)"

definition is_dict :: "json \<Rightarrow> bool" where
  "is_dict v = (case v of JObj _ \<Rightarrow> True | _ \<Rightarrow> False)"

fun is_str :: "json \<Rightarrow> bool" where
  "is_str (JStr s) = True"
| "is_str _ = False"

fun is_int :: "json \<Rightarrow> bool" where
  "is_int (JInt i) = True"
| "is_int _ = False"

fun the_str :: "json \<Rightarrow> string" where
  "the_str (JStr s) = s"
| "the_str _ = []"

fun the_list :: "json \<Rightarrow> json list" where
  "the_list (JArr xs) = xs"
| "the_list _ = []"

fun the_int :: "json \<Rightarrow> int" where
  "the_int (JInt i) = i"
| "the_int _ = 0"

text \<open>
  A note as the data model of the specification has it: the id is an integer, the title,
  the body and the time stamp are strings and the tags are a list of strings.
\<close>

definition typed_note :: "Note \<Rightarrow> bool" where
  "typed_note n =
     (is_int (note_id n) \<and> is_str (title n) \<and> is_str (body n) \<and> is_str (created_at n) \<and>
      (case tags n of JArr ts \<Rightarrow> list_all is_str ts | _ \<Rightarrow> False))"

text \<open>
  What \<^verbatim>\<open>view\<close> prints for a note, in the words of the specification: the title with the
  id, the time stamp, the tags joined by a comma and a blank, an empty line and the body.
\<close>

definition view_lines :: "Note \<Rightarrow> string" where
  "view_lines n =
     the_str (title n) @ '' (id='' @ int_repr (the_int (note_id n)) @ '')'' @ nl
     @ ''created: '' @ the_str (created_at n) @ nl
     @ ''tags: '' @ join '', '' (map the_str (the_list (tags n))) @ nl
     @ nl
     @ the_str (body n)"

text \<open>The match of the specification: the lowered query is a substring of a lowered field.\<close>

definition spec_matches :: "string \<Rightarrow> Note \<Rightarrow> bool" where
  "spec_matches query n =
     (is_substring (lower query) (lower (the_str (title n))) \<or>
      is_substring (lower query) (lower (the_str (body n))) \<or>
      (\<exists>t \<in> set (the_list (tags n)). is_substring (lower query) (lower (the_str t))))"

text \<open>The ids that a list of results of \<open>run\<close> reports for the added notes.\<close>

fun added_ids :: "(error + json option) list \<Rightarrow> json list" where
  "added_ids [] = []"
| "added_ids (Inr (Some i) # rs) = i # added_ids rs"
| "added_ids (_ # rs) = added_ids rs"

text \<open>
  The text \<open>r\<close> is \<open>s\<close> with the surrounding white space trimmed: \<open>s\<close> is \<open>r\<close> between
  two runs of white space, and \<open>r\<close> neither starts nor ends with white space.
\<close>

definition trimmed :: "string \<Rightarrow> string \<Rightarrow> bool" where
  "trimmed s r =
     (\<exists>before after. s = before @ r @ after \<and> list_all isspace before \<and> list_all isspace after \<and>
        (r = [] \<or> (\<not> isspace (hd r) \<and> \<not> isspace (last r))))"

text \<open>
  The note that \<^verbatim>\<open>addNote\<close> creates, in the words of the specification: the id is the
  counter of the store, the title and the body are trimmed, the tags are trimmed and the
  empty ones are left out, and the time stamp is the ISO-8601 text of the instant with a
  \<^verbatim>\<open>Z\<close> after it.
\<close>

definition spec_note :: "datetime \<Rightarrow> string \<Rightarrow> string \<Rightarrow> string list option \<Rightarrow> int \<Rightarrow> Note" where
  "spec_note now t b tg nid =
     \<lparr>note_id = JInt nid,
      title = JStr (strip t),
      body = JStr (strip b),
      tags = JArr (map JStr (filter (\<lambda>s. s \<noteq> []) (map strip (case tg of None \<Rightarrow> [] | Some ts \<Rightarrow> ts)))),
      created_at = JStr (isoformat now @ ''Z'')\<rparr>"

text \<open>The number of \<^verbatim>\<open>add_note\<close> calls in a sequence of operations.\<close>

fun count_adds :: "operation list \<Rightarrow> nat" where
  "count_adds [] = 0"
| "count_adds (Add now t b tg # ops) = Suc (count_adds ops)"
| "count_adds (Del k # ops) = count_adds ops"

text \<open>The id of a stored note record, the ids of the notes of a stored dict, and its counter.\<close>

definition stored_id :: "json \<Rightarrow> json" where
  "stored_id n =
     (case n of
        JObj d \<Rightarrow> (case dict_get d ''id'' of Some v \<Rightarrow> v | None \<Rightarrow> JNull)
      | _ \<Rightarrow> JNull)"

definition stored_ids :: "json \<Rightarrow> json list" where
  "stored_ids data =
     (case data of
        JObj kvs \<Rightarrow> (case dict_get kvs ''notes'' of Some (JArr ns) \<Rightarrow> map stored_id ns | _ \<Rightarrow> [])
      | _ \<Rightarrow> [])"

text \<open>The value that \<^verbatim>\<open>load_store\<close> reads (\<open>JNull\<close> when it raises).\<close>

definition loaded :: "fs \<Rightarrow> json" where
  "loaded files = (case fst (load_store files) of Inr data \<Rightarrow> data | Inl _ \<Rightarrow> JNull)"

definition stored_next_id :: "json \<Rightarrow> json" where
  "stored_next_id data =
     (case data of
        JObj kvs \<Rightarrow> (case dict_get kvs ''next_id'' of Some v \<Rightarrow> v | None \<Rightarrow> JNull)
      | _ \<Rightarrow> JNull)"

section \<open>Notions used in the proofs\<close>

text \<open>What follows a value in the text that \<open>iterencode\<close> writes: nothing, a comma or a newline.\<close>

definition delim :: "string \<Rightarrow> bool" where
  "delim rest = (case rest of [] \<Rightarrow> True | c # _ \<Rightarrow> c = CHR '','' \<or> c = CHR 0x0A)"

definition value_start :: "char \<Rightarrow> bool" where
  "value_start c = (\<not> is_ws c \<and> c \<noteq> CHR '']'' \<and> c \<noteq> CHR ''}'')"

text \<open>
  The invariant of the store under \<^verbatim>\<open>add_note\<close> and \<^verbatim>\<open>delete_note\<close>: the file holds the
  counter \<open>m\<close> and note records with different ids, all of them from 1 up to \<open>m - 1\<close>.
\<close>

definition store_inv :: "int \<Rightarrow> fs \<Rightarrow> bool" where
  "store_inv m files =
     (\<exists>ns. 1 \<le> m \<and>
        load_store files = (Inr (JObj [(''next_id'', JInt m), (''notes'', JArr ns)]), ensure_store files) \<and>
        list_all is_dict ns \<and> distinct (map stored_id ns) \<and>
        (\<forall>n \<in> set ns. \<exists>j. stored_id n = JInt j \<and> 1 \<le> j \<and> j < m))"

text \<open>
  A result of the decoder on the text \<open>s\<close> that is not \<open>OutOfFuel\<close> and that, when it is a
  value, leaves less text than \<open>s\<close>.
\<close>

definition consumes :: "string \<Rightarrow> error + 'a \<times> string \<Rightarrow> bool" where
  "consumes s x = (case x of Inl e \<Rightarrow> e \<noteq> OutOfFuel | Inr (v, r) \<Rightarrow> length r < length s)"

text \<open>A number of calls that is enough for \<open>scan_once\<close> to read a value back.\<close>

fun cost :: "json \<Rightarrow> nat" where
  "cost (JArr xs) = Suc (sum_list (map (\<lambda>x. Suc (cost x)) xs))"
| "cost (JObj kvs) = Suc (sum_list (map (\<lambda>kv. Suc (cost (snd kv))) kvs))"
| "cost _ = 1"

section \<open>Example data\<close>

definition example_note :: "int \<Rightarrow> string \<Rightarrow> Note" where
  "example_note i t =
     \<lparr>note_id = JInt i, title = JStr t, body = JStr ''2%'', tags = JArr [JStr ''shopping'', JStr ''home''],
      created_at = JStr ''2024-03-09T01:02:03Z''\<rparr>"

text \<open>A store, edited by hand, in which two notes share the id 7.\<close>

definition example_store :: json where
  "example_store =
     JObj [(''next_id'', JInt 9),
           (''notes'', JArr [asdict (example_note 7 ''Buy milk''), asdict (example_note 7 ''Walk dog''),
                             asdict (example_note 8 ''Call Bob'')])]"

definition example_now :: datetime where
  "example_now = \<lparr>year = 2024, month = 3, day = 9, hour = 14, minute = 2, second = 3, microsecond = 45\<rparr>"

text \<open>The scenario of the specification, followed by one more note.\<close>

definition example_ops :: "operation list" where
  "example_ops =
     [Add example_now ''Buy milk'' ''2%'' (Some [''shopping'', ''home'']),
      Add example_now ''Walk dog'' [] (Some []),
      Del 1, Del 1,
      Add example_now ''Call Bob'' [] None]"

definition example_files :: fs where
  "example_files = Map.empty(NOTES_FILE \<mapsto> json_dumps example_store)"


text \<open>The initial store file with a newline after the closing brace, as an editor leaves it.\<close>

definition edited_files :: fs where
  "edited_files = Map.empty(NOTES_FILE \<mapsto> json_dumps initial_store @ nl)"

section \<open>Integers are read back\<close>

lemma digit_char_is_digit: "d < 10 \<Longrightarrow> is_digit (digit_char d)"
  by (simp add: is_digit_def digit_char_def)

lemma digit_val_digit_char: "d < 10 \<Longrightarrow> digit_val (digit_char d) = d"
  by (simp add: digit_val_def digit_char_def)

lemma nat_repr_nonempty: "nat_repr n \<noteq> []"
  by (subst nat_repr.simps) simp

lemma nat_repr_digits: "list_all is_digit (nat_repr n)"
proof (induction n rule: nat_repr.induct)
  case (1 n)
  show ?case
  proof (cases "n < 10")
    case True
    then show ?thesis by (subst nat_repr.simps) (simp add: digit_char_is_digit)
  next
    case False
    with 1 show ?thesis by (subst nat_repr.simps) (simp add: digit_char_is_digit)
  qed
qed

lemma nat_of_digits_snoc: "nat_of_digits (ds @ [c]) = 10 * nat_of_digits ds + digit_val c"
  by (simp add: nat_of_digits_def)

lemma nat_of_digits_nat_repr: "nat_of_digits (nat_repr n) = n"
proof (induction n rule: nat_repr.induct)
  case (1 n)
  show ?case
  proof (cases "n < 10")
    case True
    then show ?thesis
      by (subst nat_repr.simps) (simp add: nat_of_digits_def digit_val_digit_char)
  next
    case False
    with 1 show ?thesis
      by (subst nat_repr.simps) (simp add: nat_of_digits_snoc digit_val_digit_char)
  qed
qed

lemma hd_nat_repr_zero: "hd (nat_repr n) = CHR ''0'' \<Longrightarrow> n = 0"
proof (induction n rule: nat_repr.induct)
  case (1 n)
  show ?case
  proof (cases "n < 10")
    case True
    then have "nat_repr n = [digit_char n]" by (subst nat_repr.simps) simp
    with 1(2) have "digit_char n = CHR ''0''" by simp
    then have "digit_val (digit_char n) = digit_val (CHR ''0'')" by simp
    with True show ?thesis by (simp add: digit_val_digit_char) (simp add: digit_val_def)
  next
    case False
    then have "nat_repr n = nat_repr (n div 10) @ [digit_char (n mod 10)]"
      by (subst nat_repr.simps) simp
    with 1(2) have "hd (nat_repr (n div 10)) = CHR ''0''"
      by (simp add: nat_repr_nonempty)
    with 1(1) False have "n div 10 = 0" by simp
    with False show ?thesis by simp
  qed
qed

lemma nat_repr_0: "nat_repr 0 = ''0''"
  by code_simp

lemma delim_not_digit:
  "delim rest \<Longrightarrow> takeWhile is_digit (ds @ rest) = takeWhile is_digit ds"
  "delim rest \<Longrightarrow> list_all is_digit ds \<Longrightarrow> dropWhile is_digit (ds @ rest) = rest"
  by (induction ds) (auto simp: delim_def is_digit_def split: list.splits)

lemma takeWhile_all: "list_all P xs \<Longrightarrow> takeWhile P xs = xs"
  by (induction xs) auto

lemma match_integer_nat_repr:
  assumes "delim rest"
  shows "match_integer (nat_repr n @ rest) = Some (nat_repr n, rest)"
proof (cases "n = 0")
  case True
  then show ?thesis by (simp add: nat_repr_0 match_integer_def)
next
  case False
  obtain d t where dt: "nat_repr n = d # t"
    using nat_repr_nonempty [of n] by (cases "nat_repr n") auto
  have d0: "d \<noteq> CHR ''0''"
    using hd_nat_repr_zero [of n] False dt by auto
  have dd: "is_digit d"
    using nat_repr_digits [of n] dt by simp
  have "takeWhile is_digit (nat_repr n @ rest) = nat_repr n"
    using assms by (simp add: delim_not_digit takeWhile_all nat_repr_digits)
  moreover have "dropWhile is_digit (nat_repr n @ rest) = rest"
    using assms by (simp add: delim_not_digit nat_repr_digits)
  ultimately show ?thesis
    using d0 dd dt by (simp add: match_integer_def)
qed

lemma delim_no_float: "delim rest \<Longrightarrow> \<not> has_frac rest \<and> \<not> has_exp rest"
  by (auto simp: delim_def has_frac_def has_exp_def split: list.splits)

lemma nat_repr_no_minus: "hd (nat_repr n) \<noteq> CHR ''-''"
  using nat_repr_digits [of n] nat_repr_nonempty [of n]
  by (cases "nat_repr n") (auto simp: is_digit_def)

lemma match_number_int_repr:
  assumes "delim rest"
  shows "match_number (int_repr i @ rest) = Some (Inr (JInt i, rest))"
proof (cases "i < 0")
  case True
  then show ?thesis
    using assms
    by (simp add: match_number_def int_repr_def match_integer_nat_repr delim_no_float
        nat_of_digits_nat_repr)
next
  case False
  obtain d t where dt: "nat_repr (nat i) = d # t"
    using nat_repr_nonempty [of "nat i"] by (cases "nat_repr (nat i)") auto
  have d: "d \<noteq> CHR ''-''" using nat_repr_no_minus [of "nat i"] dt by simp
  have m: "match_integer (d # t @ rest) = Some (d # t, rest)"
    using match_integer_nat_repr [OF assms, of "nat i"] dt by simp
  have n: "nat_of_digits (d # t) = nat i"
    using nat_of_digits_nat_repr [of "nat i"] dt by simp
  show ?thesis
    using assms False d
    by (simp add: match_number_def int_repr_def dt m n delim_no_float)
qed

section \<open>Strings are read back\<close>

lemma hex_val_hex_char: "d < 16 \<Longrightarrow> hex_val (hex_char d) = Some d"
  by (auto simp: hex_val_def hex_char_def Let_def)

lemma hex_val_0: "hex_val (CHR ''0'') = Some 0"
  by (simp add: hex_val_def)

lemma decode_escape:
  assumes "(of_char c :: nat) < 32"
  shows "decode_uXXXX (CHR ''0'' # CHR ''0'' # hex_char ((of_char c :: nat) div 16)
           # hex_char ((of_char c :: nat) mod 16) # X) = Inr (of_char c)"
proof -
  have "(of_char c :: nat) div 16 < 16" using assms by simp
  then show ?thesis
    by (simp add: decode_uXXXX_def hex_val_0 hex_val_hex_char)
qed

lemma backslash_simps:
  "backslash bsl = Some bsl" "backslash dq = Some dq"
  "backslash (CHR ''b'') = Some (CHR 0x08)" "backslash (CHR ''f'') = Some (CHR 0x0C)"
  "backslash (CHR ''n'') = Some (CHR 0x0A)" "backslash (CHR ''r'') = Some (CHR 0x0D)"
  "backslash (CHR ''t'') = Some (CHR 0x09)"
  by (simp_all add: backslash_def dq_def bsl_def)

lemma scanstring_escape_char:
  "scanstring (escape_char c @ X) = push_char c (scanstring X)"
proof -
  consider (short) "c = bsl \<or> c = dq \<or> c = CHR 0x08 \<or> c = CHR 0x0C \<or> c = CHR 0x0A
      \<or> c = CHR 0x0D \<or> c = CHR 0x09"
    | (ctl) "c \<noteq> bsl" "c \<noteq> dq" "c \<noteq> CHR 0x08" "c \<noteq> CHR 0x0C" "c \<noteq> CHR 0x0A"
        "c \<noteq> CHR 0x0D" "c \<noteq> CHR 0x09" "(of_char c :: nat) < 32"
    | (plain) "c \<noteq> bsl" "c \<noteq> dq" "\<not> (of_char c :: nat) < 32"
    by fastforce
  then show ?thesis
  proof cases
    case short
    then show ?thesis
      by (elim disjE) (simp_all add: escape_char_def backslash_simps, simp_all add: dq_def bsl_def)
  next
    case ctl
    then show ?thesis
      using decode_escape [of c]
      by (simp add: escape_char_def) (simp add: dq_def bsl_def)
  next
    case plain
    then have "escape_char c = [c]"
      by (auto simp: escape_char_def dq_def bsl_def)
    with plain show ?thesis by simp
  qed
qed

lemma scanstring_escape:
  "scanstring (concat (map escape_char s) @ dq # rest) = Inr (s, rest)"
  by (induction s) (simp_all add: scanstring_escape_char push_char_def)

section \<open>White space and the first character of a value\<close>

lemma skip_ws_newline_indent: "skip_ws (newline_indent l @ s) = skip_ws s"
  by (simp add: skip_ws_def newline_indent_def is_ws_def dropWhile_append)

lemma skip_ws_start: "\<not> is_ws c \<Longrightarrow> skip_ws (c # s) = c # s"
  by (simp add: skip_ws_def)

lemma skip_ws_space: "skip_ws (CHR '' '' # s) = skip_ws s"
  by (simp add: skip_ws_def is_ws_def)

lemma skip_ws_nl_char: "\<not> is_ws c \<Longrightarrow> skip_ws (newline_indent l @ c # s) = c # s"
  by (simp add: skip_ws_newline_indent skip_ws_start)

lemma not_ws_simps:
  "\<not> is_ws (CHR '']'')" "\<not> is_ws (CHR ''}'')" "\<not> is_ws (CHR '','')" "\<not> is_ws (CHR '':'')"
  "\<not> is_ws dq"
  by (simp_all add: is_ws_def dq_def)

lemma delim_newline_indent: "delim (newline_indent l @ s)"
  by (simp add: delim_def newline_indent_def)

lemma delim_comma: "delim (CHR '','' # s)"
  by (simp add: delim_def)

lemma delim_Nil: "delim []"
  by (simp add: delim_def)

lemma nat_repr_start: "\<exists>c r. nat_repr n = c # r \<and> is_digit c"
  using nat_repr_nonempty [of n] nat_repr_digits [of n]
  by (cases "nat_repr n") auto

lemma int_repr_start: "\<exists>c r. int_repr i = c # r \<and> (c = CHR ''-'' \<or> is_digit c)"
proof (cases "i < 0")
  case True
  then show ?thesis by (simp add: int_repr_def)
next
  case False
  then show ?thesis using nat_repr_start [of "nat i"] by (auto simp: int_repr_def)
qed

lemma iterencode_start: "\<exists>c r. iterencode l v = c # r \<and> value_start c"
proof (cases v)
  case (JInt i)
  obtain c r where "int_repr i = c # r" "c = CHR ''-'' \<or> is_digit c"
    using int_repr_start by blast
  then show ?thesis
    using JInt by (auto simp: value_start_def is_ws_def is_digit_def)
qed (auto simp: value_start_def is_ws_def encode_basestring_def dq_def)

lemma skip_ws_iterencode: "skip_ws (iterencode l v @ s) = iterencode l v @ s"
  using iterencode_start [of l v] by (auto simp: skip_ws_def value_start_def)

lemma skip_ws_join_iterencode:
  "skip_ws (join sep (map (iterencode l) (x # xs)) @ s) = join sep (map (iterencode l) (x # xs)) @ s"
  using skip_ws_iterencode [of l x] by (cases xs) simp_all

section \<open>Values are read back\<close>

lemma scan_once_atom:
  "scan_once (Suc n) (''null'' @ rest) = Inr (JNull, rest)"
  "scan_once (Suc n) (''true'' @ rest) = Inr (JBool True, rest)"
  "scan_once (Suc n) (''false'' @ rest) = Inr (JBool False, rest)"
  by (simp_all add: dq_def scan_atom_def)

lemma scan_once_str:
  "scan_once (Suc n) (encode_basestring s @ rest) = Inr (JStr s, rest)"
  by (simp add: encode_basestring_def scanstring_escape)

lemma scan_once_int:
  assumes "delim rest"
  shows "scan_once (Suc n) (int_repr i @ rest) = Inr (JInt i, rest)"
proof -
  obtain c r where cr: "int_repr i = c # r" "c = CHR ''-'' \<or> is_digit c"
    using int_repr_start by blast
  then have c: "c \<noteq> dq" "c \<noteq> CHR ''{''" "c \<noteq> CHR ''[''" "c \<noteq> CHR ''n''" "c \<noteq> CHR ''t''"
      "c \<noteq> CHR ''f''"
    by (auto simp: is_digit_def dq_def)
  have "match_number (c # r @ rest) = Some (Inr (JInt i, rest))"
    using match_number_int_repr [OF assms, of i] cr by simp
  then show ?thesis
    using c by (simp add: cr scan_atom_def)
qed

lemma JSONArray_loop_join:
  assumes "\<And>x n l rest. x \<in> set xs \<Longrightarrow> cost x \<le> n \<Longrightarrow> delim rest \<Longrightarrow>
             scan_once n (iterencode l x @ rest) = Inr (x, rest)"
    and "xs \<noteq> []"
    and "sum_list (map (\<lambda>x. Suc (cost x)) xs) \<le> n"
  shows "JSONArray_loop n acc
           (join (CHR '','' # newline_indent (Suc l)) (map (iterencode (Suc l)) xs)
              @ newline_indent l @ CHR '']'' # rest)
         = Inr (JArr (acc @ xs), rest)"
  using assms
proof (induction xs arbitrary: n acc)
  case Nil
  then show ?case by simp
next
  case (Cons x xs)
  from Cons.prems(3) obtain m where n: "n = Suc m" by (cases n) auto
  have cx: "cost x \<le> m" using Cons.prems(3) n by simp
  show ?case
  proof (cases xs)
    case Nil
    have "scan_once m (iterencode (Suc l) x @ newline_indent l @ CHR '']'' # rest)
        = Inr (x, newline_indent l @ CHR '']'' # rest)"
      using Cons.prems(1) [of x m] cx by (simp add: delim_newline_indent)
    then show ?thesis
      by (simp add: n Nil skip_ws_nl_char not_ws_simps)
  next
    case (Cons y ys)
    define tail where "tail = join (CHR '','' # newline_indent (Suc l))
        (map (iterencode (Suc l)) xs) @ newline_indent l @ CHR '']'' # rest"
    have j: "join (CHR '','' # newline_indent (Suc l)) (map (iterencode (Suc l)) (x # xs))
          @ newline_indent l @ CHR '']'' # rest
        = iterencode (Suc l) x @ CHR '','' # newline_indent (Suc l) @ tail"
      by (simp add: Cons tail_def)
    have 1: "scan_once m (iterencode (Suc l) x @ CHR '','' # newline_indent (Suc l) @ tail)
        = Inr (x, CHR '','' # newline_indent (Suc l) @ tail)"
      using Cons.prems(1) [of x m] cx by (simp add: delim_comma)
    have 2: "skip_ws (newline_indent (Suc l) @ tail) = tail"
      unfolding skip_ws_newline_indent tail_def Cons by (rule skip_ws_join_iterencode)
    have 3: "JSONArray_loop m (acc @ [x]) tail = Inr (JArr ((acc @ [x]) @ xs), rest)"
      unfolding tail_def
    proof (rule Cons.IH)
      show "xs \<noteq> []" using Cons by simp
      show "sum_list (map (\<lambda>x. Suc (cost x)) xs) \<le> m" using Cons.prems(3) n by simp
      show "\<And>x n l rest. x \<in> set xs \<Longrightarrow> cost x \<le> n \<Longrightarrow> delim rest \<Longrightarrow>
             scan_once n (iterencode l x @ rest) = Inr (x, rest)"
        using Cons.prems(1) by simp
    qed
    show ?thesis
      unfolding j n by (simp add: 1 2 3 skip_ws_start not_ws_simps)
  qed
qed

lemma dict_set_fresh: "k \<notin> fst ` set d \<Longrightarrow> dict_set d k v = d @ [(k, v)]"
  by (induction d) auto

lemma foldl_dict_set_distinct:
  "distinct (map fst (d @ kvs)) \<Longrightarrow>
   foldl (\<lambda>d kv. dict_set d (fst kv) (snd kv)) d kvs = d @ kvs"
proof (induction kvs arbitrary: d)
  case Nil
  then show ?case by simp
next
  case (Cons kv kvs)
  have "dict_set d (fst kv) (snd kv) = d @ [kv]"
    using Cons.prems by (simp add: dict_set_fresh)
  moreover have "distinct (map fst ((d @ [kv]) @ kvs))"
    using Cons.prems by simp
  ultimately show ?case
    using Cons.IH [of "d @ [kv]"] by simp
qed

lemma dict_of_pairs_distinct: "distinct (map fst kvs) \<Longrightarrow> dict_of_pairs kvs = kvs"
  using foldl_dict_set_distinct [of "[]" kvs] by (simp add: dict_of_pairs_def)

lemma JSONObject_loop_join:
  assumes "\<And>kv n l rest. kv \<in> set kvs \<Longrightarrow> cost (snd kv) \<le> n \<Longrightarrow> delim rest \<Longrightarrow>
             scan_once n (iterencode l (snd kv) @ rest) = Inr (snd kv, rest)"
    and "kvs \<noteq> []"
    and "sum_list (map (\<lambda>kv. Suc (cost (snd kv))) kvs) \<le> n"
  shows "JSONObject_loop n acc
           (tl (join (CHR '','' # newline_indent (Suc l))
                  (map (\<lambda>kv. encode_basestring (fst kv) @ '': '' @ iterencode (Suc l) (snd kv)) kvs)
                @ newline_indent l @ CHR ''}'' # rest))
         = Inr (JObj (dict_of_pairs (acc @ kvs)), rest)"
  using assms
proof (induction kvs arbitrary: n acc)
  case Nil
  then show ?case by simp
next
  case (Cons kv kvs)
  from Cons.prems(3) obtain m where n: "n = Suc m" by (cases n) auto
  obtain k v where kv: "kv = (k, v)" by (cases kv)
  have cx: "cost v \<le> m" using Cons.prems(3) n kv by simp
  have val: "\<And>rest. delim rest \<Longrightarrow> scan_once m (iterencode (Suc l) v @ rest) = Inr (v, rest)"
    using Cons.prems(1) [of kv m] cx kv by simp
  show ?case
  proof (cases kvs)
    case Nil
    have j: "tl (join (CHR '','' # newline_indent (Suc l))
                  (map (\<lambda>kv. encode_basestring (fst kv) @ '': '' @ iterencode (Suc l) (snd kv)) (kv # kvs))
                @ newline_indent l @ CHR ''}'' # rest)
        = concat (map escape_char k) @ dq # CHR '':'' # CHR '' '' # iterencode (Suc l) v
            @ newline_indent l @ CHR ''}'' # rest"
      by (simp add: Nil kv encode_basestring_def)
    show ?thesis
      unfolding j n
      by (simp add: scanstring_escape skip_ws_start not_ws_simps skip_ws_space
          skip_ws_iterencode val delim_newline_indent skip_ws_nl_char Nil kv)
  next
    case (Cons kv2 kvs2)
    define tail where "tail = join (CHR '','' # newline_indent (Suc l))
        (map (\<lambda>kv. encode_basestring (fst kv) @ '': '' @ iterencode (Suc l) (snd kv)) kvs)
        @ newline_indent l @ CHR ''}'' # rest"
    have t: "tail = dq # tl tail"
      by (cases kvs2) (simp_all add: tail_def Cons encode_basestring_def)
    have j: "tl (join (CHR '','' # newline_indent (Suc l))
                  (map (\<lambda>kv. encode_basestring (fst kv) @ '': '' @ iterencode (Suc l) (snd kv)) (kv # kvs))
                @ newline_indent l @ CHR ''}'' # rest)
        = concat (map escape_char k) @ dq # CHR '':'' # CHR '' '' # iterencode (Suc l) v
            @ CHR '','' # newline_indent (Suc l) @ tail"
      by (simp add: Cons kv encode_basestring_def tail_def)
    have 2: "skip_ws (newline_indent (Suc l) @ tail) = dq # tl tail"
      by (subst t) (simp add: skip_ws_nl_char not_ws_simps)
    have 3: "JSONObject_loop m (acc @ [(k, v)]) (tl tail)
        = Inr (JObj (dict_of_pairs ((acc @ [(k, v)]) @ kvs)), rest)"
      unfolding tail_def
    proof (rule Cons.IH)
      show "kvs \<noteq> []" using Cons by simp
      show "sum_list (map (\<lambda>kv. Suc (cost (snd kv))) kvs) \<le> m" using Cons.prems(3) n by simp
      show "\<And>kv n l rest. kv \<in> set kvs \<Longrightarrow> cost (snd kv) \<le> n \<Longrightarrow> delim rest \<Longrightarrow>
             scan_once n (iterencode l (snd kv) @ rest) = Inr (snd kv, rest)"
        using Cons.prems(1) by simp
    qed
    show ?thesis
      unfolding j n
      by (simp add: scanstring_escape skip_ws_start not_ws_simps skip_ws_space
          skip_ws_iterencode val delim_comma 2 3 kv)
  qed
qed

lemma scan_once_iterencode:
  "wf_json v \<Longrightarrow> cost v \<le> n \<Longrightarrow> delim rest \<Longrightarrow>
   scan_once n (iterencode l v @ rest) = Inr (v, rest)"
proof (induction v arbitrary: n l rest)
  case JNull
  then obtain m where "n = Suc m" by (cases n) auto
  then show ?case by (simp only: iterencode.simps scan_once_atom)
next
  case (JBool b)
  then obtain m where "n = Suc m" by (cases n) auto
  then show ?case by (cases b) (simp_all only: iterencode.simps if_True if_False scan_once_atom)
next
  case (JInt i)
  then obtain m where "n = Suc m" by (cases n) auto
  then show ?case using JInt.prems by (simp only: iterencode.simps scan_once_int)
next
  case (JStr s)
  then obtain m where "n = Suc m" by (cases n) auto
  then show ?case by (simp only: iterencode.simps scan_once_str)
next
  case (JArr xs)
  then obtain m where n: "n = Suc m" by (cases n) auto
  show ?case
  proof (cases xs)
    case Nil
    then show ?thesis by (simp add: n dq_def skip_ws_def is_ws_def)
  next
    case (Cons y ys)
    define content where "content = join (CHR '','' # newline_indent (Suc l)) (map (iterencode (Suc l)) xs)
        @ newline_indent l @ CHR '']'' # rest"
    have e: "iterencode l (JArr xs) @ rest = CHR ''['' # newline_indent (Suc l) @ content"
      by (simp add: Cons content_def)
    obtain c r where cr: "content = c # r" "value_start c"
      using iterencode_start [of "Suc l" y] by (cases ys) (auto simp: content_def Cons)
    have s: "skip_ws (newline_indent (Suc l) @ c # r) = c # r"
      using cr by (simp add: skip_ws_nl_char value_start_def)
    have c: "c \<noteq> CHR '']''"
      using cr by (simp add: value_start_def)
    have "JSONArray_loop m [] content = Inr (JArr ([] @ xs), rest)"
      unfolding content_def
    proof (rule JSONArray_loop_join)
      show "xs \<noteq> []" using Cons by simp
      show "sum_list (map (\<lambda>x. Suc (cost x)) xs) \<le> m" using JArr.prems n by simp
      show "\<And>x n l rest. x \<in> set xs \<Longrightarrow> cost x \<le> n \<Longrightarrow> delim rest \<Longrightarrow>
             scan_once n (iterencode l x @ rest) = Inr (x, rest)"
        using JArr.IH JArr.prems(1) by (simp add: list_all_iff)
    qed
    then have "JSONArray_loop m [] (c # r) = Inr (JArr xs, rest)"
      by (simp add: cr)
    then show ?thesis
      unfolding e n cr by (simp add: s c dq_def)
  qed
next
  case (JObj kvs)
  then obtain m where n: "n = Suc m" by (cases n) auto
  show ?case
  proof (cases kvs)
    case Nil
    then show ?thesis by (simp add: n dq_def skip_ws_def is_ws_def)
  next
    case (Cons y ys)
    define content where "content = join (CHR '','' # newline_indent (Suc l))
        (map (\<lambda>kv. encode_basestring (fst kv) @ '': '' @ iterencode (Suc l) (snd kv)) kvs)
        @ newline_indent l @ CHR ''}'' # rest"
    have e: "iterencode l (JObj kvs) @ rest = CHR ''{'' # newline_indent (Suc l) @ content"
      by (simp add: Cons content_def)
    have b: "content = dq # tl content"
      by (cases ys) (simp_all add: content_def Cons encode_basestring_def)
    have s: "skip_ws (newline_indent (Suc l) @ content) = dq # tl content"
      by (subst b) (simp add: skip_ws_nl_char not_ws_simps)
    have "JSONObject_loop m [] (tl content) = Inr (JObj (dict_of_pairs ([] @ kvs)), rest)"
      unfolding content_def
    proof (rule JSONObject_loop_join)
      show "kvs \<noteq> []" using Cons by simp
      show "sum_list (map (\<lambda>kv. Suc (cost (snd kv))) kvs) \<le> m" using JObj.prems n by simp
      show "\<And>kv n l rest. kv \<in> set kvs \<Longrightarrow> cost (snd kv) \<le> n \<Longrightarrow> delim rest \<Longrightarrow>
             scan_once n (iterencode l (snd kv) @ rest) = Inr (snd kv, rest)"
      proof -
        fix kv :: "string \<times> json" and n l rest
        assume a: "kv \<in> set kvs" "cost (snd kv) \<le> n" "delim rest"
        have "snd kv \<in> Basic_BNFs.snds kv" by (cases kv) simp
        moreover have "wf_json (snd kv)" using a(1) JObj.prems(1) by (simp add: list_all_iff)
        ultimately show "scan_once n (iterencode l (snd kv) @ rest) = Inr (snd kv, rest)"
          using JObj.IH a by blast
      qed
    qed
    then show ?thesis
      unfolding e n using JObj.prems(1) by (simp add: s dq_def dict_of_pairs_distinct)
  qed
qed

lemma length_join:
  "sep \<noteq> [] \<Longrightarrow> sum_list (map (\<lambda>s. Suc (length s)) ss) \<le> Suc (length (join sep ss))"
proof (induction sep ss rule: join.induct)
  case (3 sep x y ys)
  then obtain c cs where sep: "sep = c # cs" by (cases sep) auto
  have "sum_list (map (\<lambda>s. Suc (length s)) (y # ys)) \<le> Suc (length (join sep (y # ys)))"
    using 3 by blast
  then show ?case by (simp add: sep)
qed simp_all

lemma cost_le_length: "cost v \<le> length (iterencode l v)"
proof (induction v arbitrary: l)
  case (JArr xs)
  have "sum_list (map (\<lambda>x. Suc (cost x)) xs)
      \<le> sum_list (map (\<lambda>s. Suc (length s)) (map (iterencode (Suc l)) xs))"
    unfolding map_map comp_def
    by (rule sum_list_mono) (simp add: JArr.IH)
  also have "\<dots> \<le> Suc (length (join (CHR '','' # newline_indent (Suc l)) (map (iterencode (Suc l)) xs)))"
    by (rule length_join) simp
  finally show ?case
    by (simp add: newline_indent_def)
next
  case (JObj kvs)
  have "sum_list (map (\<lambda>kv. Suc (cost (snd kv))) kvs)
      \<le> sum_list (map (\<lambda>s. Suc (length s))
           (map (\<lambda>kv. encode_basestring (fst kv) @ '': '' @ iterencode (Suc l) (snd kv)) kvs))"
    unfolding map_map comp_def
  proof (rule sum_list_mono)
    fix kv assume "kv \<in> set kvs"
    moreover have "snd kv \<in> Basic_BNFs.snds kv" by (cases kv) simp
    ultimately have "cost (snd kv) \<le> length (iterencode (Suc l) (snd kv))"
      using JObj.IH by blast
    then show "Suc (cost (snd kv))
        \<le> Suc (length (encode_basestring (fst kv) @ '': '' @ iterencode (Suc l) (snd kv)))"
      by simp
  qed
  also have "\<dots> \<le> Suc (length (join (CHR '','' # newline_indent (Suc l))
      (map (\<lambda>kv. encode_basestring (fst kv) @ '': '' @ iterencode (Suc l) (snd kv)) kvs)))"
    by (rule length_join) simp
  finally show ?case
    by (simp add: newline_indent_def)
next
  case (JInt i)
  then show ?case using int_repr_start [of i] by auto
qed (simp_all add: encode_basestring_def)

lemma json_loads_dumps: "wf_json v \<Longrightarrow> json_loads (json_dumps v) = Inr v"
proof -
  assume wf: "wf_json v"
  have "cost v \<le> Suc (2 * length (iterencode 0 v))"
    using cost_le_length [of v 0] by simp
  then have "scan_once (Suc (2 * length (iterencode 0 v))) (iterencode 0 v @ []) = Inr (v, [])"
    using wf by (intro scan_once_iterencode delim_Nil)
  moreover have "skip_ws (iterencode 0 v) = iterencode 0 v"
    using skip_ws_iterencode [of 0 v "[]"] by simp
  ultimately show ?thesis
    by (simp add: json_loads_def json_dumps_def skip_ws_def)
qed

section \<open>What the decoder returns is a Python value\<close>

lemma dict_set_keys:
  "map fst (dict_set d k v) = (if k \<in> set (map fst d) then map fst d else map fst d @ [k])"
  by (induction d) force+

lemma dict_set_wf:
  "list_all (\<lambda>kv. wf_json (snd kv)) d \<Longrightarrow> wf_json v \<Longrightarrow> list_all (\<lambda>kv. wf_json (snd kv)) (dict_set d k v)"
  by (induction d) auto

lemma foldl_dict_set_wf:
  "distinct (map fst d) \<Longrightarrow> list_all (\<lambda>kv. wf_json (snd kv)) d \<Longrightarrow>
   list_all (\<lambda>kv. wf_json (snd kv)) ps \<Longrightarrow>
   wf_json (JObj (foldl (\<lambda>d kv. dict_set d (fst kv) (snd kv)) d ps))"
proof (induction ps arbitrary: d)
  case Nil
  then show ?case by simp
next
  case (Cons p ps)
  have "distinct (map fst (dict_set d (fst p) (snd p)))"
    using Cons.prems(1) by (simp add: dict_set_keys)
  moreover have "list_all (\<lambda>kv. wf_json (snd kv)) (dict_set d (fst p) (snd p))"
    using Cons.prems by (simp add: dict_set_wf)
  ultimately show ?case
    using Cons.IH [of "dict_set d (fst p) (snd p)"] Cons.prems(3) by simp
qed

lemma dict_of_pairs_wf:
  "list_all (\<lambda>kv. wf_json (snd kv)) ps \<Longrightarrow> wf_json (JObj (dict_of_pairs ps))"
  unfolding dict_of_pairs_def by (rule foldl_dict_set_wf) simp_all

lemma match_number_wf: "match_number s = Some (Inr (v, r)) \<Longrightarrow> wf_json v"
  by (auto simp: match_number_def Let_def split: option.splits if_splits)

lemma scan_atom_wf: "scan_atom s = Inr (v, r) \<Longrightarrow> wf_json v"
  by (auto simp: scan_atom_def split: if_splits option.splits dest: match_number_wf)

lemma scan_once_Suc_cases:
  assumes "scan_once (Suc n) s = Inr (v, r)"
  obtains (str) str where "v = JStr str"
    | (obj0) "v = JObj []"
    | (obj) r1 where "JSONObject_loop n [] r1 = Inr (v, r)"
    | (arr0) "v = JArr []"
    | (arr) r1 where "JSONArray_loop n [] r1 = Inr (v, r)"
    | (atom) "scan_atom s = Inr (v, r)"
proof (cases s)
  case Nil
  with assms show ?thesis by simp
next
  case (Cons c cs)
  consider "c = dq" | "c \<noteq> dq" "c = CHR ''{''" | "c \<noteq> dq" "c \<noteq> CHR ''{''" "c = CHR ''[''"
    | "c \<noteq> dq" "c \<noteq> CHR ''{''" "c \<noteq> CHR ''[''"
    by blast
  then show ?thesis
  proof cases
    case 1
    with assms Cons str show ?thesis by (auto split: sum.splits)
  next
    case 2
    with assms Cons obj0 obj show ?thesis by (auto split: list.splits if_splits)
  next
    case 3
    with assms Cons arr0 arr show ?thesis by (auto split: list.splits if_splits)
  next
    case 4
    with assms Cons have "scan_atom s = Inr (v, r)" by simp
    then show ?thesis by (rule atom)
  qed
qed

lemma scan_wf:
  "(\<forall>s v r. scan_once n s = Inr (v, r) \<longrightarrow> wf_json v) \<and>
   (\<forall>acc s v r. list_all wf_json acc \<longrightarrow> JSONArray_loop n acc s = Inr (v, r) \<longrightarrow> wf_json v) \<and>
   (\<forall>ps s v r. list_all (\<lambda>kv. wf_json (snd kv)) ps \<longrightarrow> JSONObject_loop n ps s = Inr (v, r)
       \<longrightarrow> wf_json v)"
proof (induction n)
  case 0
  show ?case by simp
next
  case (Suc n)
  have a: "\<And>s v r. scan_once (Suc n) s = Inr (v, r) \<Longrightarrow> wf_json v"
  proof -
    fix s v r assume "scan_once (Suc n) s = Inr (v, r)"
    then show "wf_json v"
    proof (cases rule: scan_once_Suc_cases)
      case (obj r1)
      moreover have "list_all (\<lambda>kv. wf_json (snd kv)) []" by simp
      ultimately show ?thesis using Suc by blast
    next
      case (arr r1)
      moreover have "list_all wf_json []" by simp
      ultimately show ?thesis using Suc by blast
    next
      case atom
      then show ?thesis by (rule scan_atom_wf)
    qed simp_all
  qed
  have b: "\<And>acc s v r. list_all wf_json acc \<Longrightarrow> JSONArray_loop (Suc n) acc s = Inr (v, r) \<Longrightarrow> wf_json v"
  proof -
    fix acc s v r
    assume acc: "list_all wf_json acc" and l: "JSONArray_loop (Suc n) acc s = Inr (v, r)"
    from l obtain x rest where x: "scan_once n s = Inr (x, rest)"
      by (auto split: sum.splits)
    then have wx: "wf_json x" using Suc by blast
    then have w: "list_all wf_json (acc @ [x])" using acc by simp
    from l x obtain c r' where c: "skip_ws rest = c # r'"
      by (auto split: list.splits)
    from l x c consider "v = JArr (acc @ [x])" | "JSONArray_loop n (acc @ [x]) (skip_ws r') = Inr (v, r)"
      by (auto split: if_splits)
    then show "wf_json v"
    proof cases
      case 1
      then show ?thesis using w by simp
    next
      case 2
      then show ?thesis using Suc w by blast
    qed
  qed
  have c: "\<And>ps s v r. list_all (\<lambda>kv. wf_json (snd kv)) ps \<Longrightarrow> JSONObject_loop (Suc n) ps s = Inr (v, r)
       \<Longrightarrow> wf_json v"
  proof -
    fix ps s v r
    assume ps: "list_all (\<lambda>kv. wf_json (snd kv)) ps" and l: "JSONObject_loop (Suc n) ps s = Inr (v, r)"
    from l obtain key r0 where k: "scanstring s = Inr (key, r0)"
      by (auto split: sum.splits)
    from l k obtain r1 where r1: "skip_ws r0 = CHR '':'' # r1"
      by (auto split: list.splits if_splits)
    from l k r1 obtain x r2 where x: "scan_once n (skip_ws r1) = Inr (x, r2)"
      by (auto split: sum.splits)
    then have wx: "wf_json x" using Suc by blast
    then have w: "list_all (\<lambda>kv. wf_json (snd kv)) (ps @ [(key, x)])" using ps by simp
    then have d: "wf_json (JObj (dict_of_pairs (ps @ [(key, x)])))" by (rule dict_of_pairs_wf)
    from l k r1 x obtain c2 r3 where c2: "skip_ws r2 = c2 # r3"
      by (auto split: list.splits)
    from l k r1 x c2 consider "v = JObj (dict_of_pairs (ps @ [(key, x)]))"
      | r4 where "JSONObject_loop n (ps @ [(key, x)]) r4 = Inr (v, r)"
      by (auto split: if_splits list.splits)
    then show "wf_json v"
    proof cases
      case 1
      then show ?thesis using d by simp
    next
      case 2
      then show ?thesis using Suc w by blast
    qed
  qed
  from a b c show ?case by blast
qed

lemma json_loads_wf: "json_loads s = Inr v \<Longrightarrow> wf_json v"
proof -
  assume l: "json_loads s = Inr v"
  then obtain r where "scan_once (Suc (2 * length s)) (skip_ws s) = Inr (v, r)"
    unfolding json_loads_def by (auto split: sum.splits if_splits simp del: scan_once.simps)
  then show ?thesis
    using scan_wf [of "Suc (2 * length s)"] by blast
qed

section \<open>The decoder never runs out of calls\<close>

lemma length_skip_ws: "length (skip_ws s) \<le> length s"
  by (simp add: skip_ws_def length_dropWhile_le)

lemma skip_ws_Cons_length: "skip_ws s = c # r \<Longrightarrow> length r < length s"
  using length_skip_ws [of s] by simp

lemma push_char_Inr:
  "push_char c x = Inr (str, rest) \<Longrightarrow> \<exists>str'. x = Inr (str', rest)"
  by (cases x) (auto simp: push_char_def)

lemma push_char_fuel: "push_char c x = Inl OutOfFuel \<Longrightarrow> x = Inl OutOfFuel"
  by (cases x) (auto simp: push_char_def)

lemma decode_uXXXX_fuel: "decode_uXXXX s \<noteq> Inl OutOfFuel"
  by (auto simp: decode_uXXXX_def split: list.splits option.splits)

lemma scanstring_fuel: "scanstring s \<noteq> Inl OutOfFuel"
proof (induction s rule: scanstring.induct)
  case 1
  show ?case by simp
next
  case (2 c s)
  show ?case
  proof
    assume a: "scanstring (c # s) = Inl OutOfFuel"
    consider "c = dq" | "c \<noteq> dq" "c = bsl" | "c \<noteq> dq" "c \<noteq> bsl" by blast
    then show False
    proof cases
      case 1
      with a show False by simp
    next
      case 2
      show False
      proof (cases s)
        case Nil
        with a 2 show False by simp
      next
        case (Cons esc s')
        show False
        proof (cases "esc = CHR ''u''")
          case True
          obtain r where r: "decode_uXXXX s' = r" by simp
          show False
          proof (cases r)
            case (Inl e)
            with a 2 Cons True r decode_uXXXX_fuel [of s'] show False by simp
          next
            case (Inr uni)
            show False
            proof (cases "uni < 256")
              case u: True
              with a 2 Cons True r Inr
              have "push_char (char_of uni) (scanstring (drop 4 s')) = Inl OutOfFuel" by simp
              then have "scanstring (drop 4 s') = Inl OutOfFuel" by (rule push_char_fuel)
              with "2.IH"(1) [OF 2(1) 2(2) Cons True r [unfolded Inr] u] show False by simp
            next
              case False
              with a 2 Cons True r Inr show False by simp
            qed
          qed
        next
          case False
          show False
          proof (cases "backslash esc")
            case None
            with a 2 Cons False show False by simp
          next
            case (Some ch)
            with a 2 Cons False have "push_char ch (scanstring s') = Inl OutOfFuel" by simp
            then have "scanstring s' = Inl OutOfFuel" by (rule push_char_fuel)
            with "2.IH"(2) [OF 2(1) 2(2) Cons False Some] show False by simp
          qed
        qed
      qed
    next
      case 3
      show False
      proof (cases "(of_char c :: nat) < 32")
        case True
        with a 3 show False by simp
      next
        case False
        with a 3 have "push_char c (scanstring s) = Inl OutOfFuel" by simp
        then have "scanstring s = Inl OutOfFuel" by (rule push_char_fuel)
        with "2.IH"(3) [OF 3(1) 3(2) False] show False by simp
      qed
    qed
  qed
qed


lemma scanstring_length: "scanstring s = Inr (str, rest) \<Longrightarrow> length rest < length s"
proof (induction s arbitrary: str rule: scanstring.induct)
  case 1
  then show ?case by simp
next
  case (2 c s)
  note a = "2.prems"
  consider "c = dq" | "c \<noteq> dq" "c = bsl" | "c \<noteq> dq" "c \<noteq> bsl" by blast
  then show ?case
  proof cases
    case 1
    with a show ?thesis by simp
  next
    case 2
    show ?thesis
    proof (cases s)
      case Nil
      with a 2 show ?thesis by simp
    next
      case (Cons esc s')
      show ?thesis
      proof (cases "esc = CHR ''u''")
        case True
        obtain r where r: "decode_uXXXX s' = r" by simp
        show ?thesis
        proof (cases r)
          case (Inl e)
          with a 2 Cons True r show ?thesis by simp
        next
          case (Inr uni)
          show ?thesis
          proof (cases "uni < 256")
            case u: True
            with a 2 Cons True r Inr
            have "push_char (char_of uni) (scanstring (drop 4 s')) = Inr (str, rest)" by simp
            then obtain str' where "scanstring (drop 4 s') = Inr (str', rest)"
              using push_char_Inr by blast
            with "2.IH"(1) [OF 2(1) 2(2) Cons True r [unfolded Inr] u]
            have "length rest < length (drop 4 s')" by simp
            then show ?thesis using Cons by simp
          next
            case False
            with a 2 Cons True r Inr show ?thesis by simp
          qed
        qed
      next
        case False
        show ?thesis
        proof (cases "backslash esc")
          case None
          with a 2 Cons False show ?thesis by simp
        next
          case (Some ch)
          with a 2 Cons False have "push_char ch (scanstring s') = Inr (str, rest)" by simp
          then obtain str' where "scanstring s' = Inr (str', rest)"
            using push_char_Inr by blast
          with "2.IH"(2) [OF 2(1) 2(2) Cons False Some]
          have "length rest < length s'" by simp
          then show ?thesis using Cons by simp
        qed
      qed
    qed
  next
    case 3
    show ?thesis
    proof (cases "(of_char c :: nat) < 32")
      case True
      with a 3 show ?thesis by simp
    next
      case False
      with a 3 have "push_char c (scanstring s) = Inr (str, rest)" by simp
      then obtain str' where "scanstring s = Inr (str', rest)"
        using push_char_Inr by blast
      with "2.IH"(3) [OF 3(1) 3(2) False]
      have "length rest < length s" by simp
      then show ?thesis by simp
    qed
  qed
qed

lemma match_integer_length:
  "match_integer s = Some (ds, rest) \<Longrightarrow> length rest < length s"
proof (cases s)
  case Nil
  then show "match_integer s = Some (ds, rest) \<Longrightarrow> length rest < length s"
    by (simp add: match_integer_def)
next
  case (Cons d t)
  assume m: "match_integer s = Some (ds, rest)"
  show "length rest < length s"
  proof (cases "d = CHR ''0''")
    case True
    with m Cons show ?thesis by (simp add: match_integer_def)
  next
    case False
    with m Cons have "is_digit d" and "rest = dropWhile is_digit s"
      by (auto simp: match_integer_def split: if_splits)
    then have "rest = dropWhile is_digit t" using Cons by simp
    moreover have "length (dropWhile is_digit t) \<le> length t" by (rule length_dropWhile_le)
    ultimately show ?thesis using Cons by simp
  qed
qed

lemma match_number_length:
  assumes "match_number s = Some (Inr (v, rest))"
  shows "length rest < length s"
proof -
  define s1 where "s1 = (if (case s of [] \<Rightarrow> False | c # _ \<Rightarrow> c = CHR ''-'') then tl s else s)"
  have le: "length s1 \<le> length s" by (simp add: s1_def)
  from assms obtain ds where "match_integer s1 = Some (ds, rest)"
    unfolding match_number_def Let_def s1_def [symmetric]
    by (cases "match_integer s1") (auto split: if_splits)
  then have "length rest < length s1" by (rule match_integer_length)
  with le show ?thesis by simp
qed

lemma match_number_fuel: "match_number s \<noteq> Some (Inl OutOfFuel)"
  by (auto simp: match_number_def Let_def split: option.splits if_splits)

lemma scan_atom_fuel: "scan_atom s \<noteq> Inl OutOfFuel"
  using match_number_fuel [of s]
  by (auto simp: scan_atom_def split: option.splits)

lemma take_eq_length: "take n s = t \<Longrightarrow> length t = n \<Longrightarrow> n \<le> length s"
  by (metis length_take min.cobounded1)

lemma scan_atom_length:
  assumes "scan_atom s = Inr (v, rest)"
  shows "length rest < length s"
proof -
  consider "take 4 s = ''null''" "rest = drop 4 s"
    | "take 4 s = ''true''" "rest = drop 4 s"
    | "take 5 s = ''false''" "rest = drop 5 s"
    | "match_number s = Some (Inr (v, rest))"
    using assms by (auto simp: scan_atom_def split: if_splits option.splits)
  then show ?thesis
  proof cases
    case 1
    then have "4 \<le> length s" by (intro take_eq_length [of 4 s "''null''"]) simp_all
    with 1 show ?thesis by simp
  next
    case 2
    then have "4 \<le> length s" by (intro take_eq_length [of 4 s "''true''"]) simp_all
    with 2 show ?thesis by simp
  next
    case 3
    then have "5 \<le> length s" by (intro take_eq_length [of 5 s "''false''"]) simp_all
    with 3 show ?thesis by simp
  next
    case 4
    then show ?thesis by (rule match_number_length)
  qed
qed


lemma consumes_simps:
  "consumes s (Inl e) = (e \<noteq> OutOfFuel)"
  "consumes s (Inr (v, r)) = (length r < length s)"
  by (simp_all add: consumes_def)

lemma consumes_mono: "consumes s' x \<Longrightarrow> length s' \<le> length s \<Longrightarrow> consumes s x"
  by (cases x) (auto simp: consumes_def)

lemma consumes_scan_atom: "consumes s (scan_atom s)"
proof (cases "scan_atom s")
  case (Inl e)
  then show ?thesis using scan_atom_fuel [of s] by (auto simp: consumes_simps)
next
  case (Inr p)
  then show ?thesis using scan_atom_length [of s "fst p" "snd p"] by (simp add: consumes_def split_beta)
qed

lemma consumes_scanstring: "consumes s (scanstring s)"
proof (cases "scanstring s")
  case (Inl e)
  then show ?thesis using scanstring_fuel [of s] by (auto simp: consumes_simps)
next
  case (Inr p)
  then show ?thesis using scanstring_length [of s "fst p" "snd p"] by (simp add: consumes_def split_beta)
qed

lemma brackets_not_dq: "CHR ''{'' \<noteq> dq" "CHR ''['' \<noteq> dq"
  by (simp_all add: dq_def)

lemma scan_consumes:
  "(\<forall>s. 2 * length s < n \<longrightarrow> consumes s (scan_once n s)) \<and>
   (\<forall>acc s. 2 * length s + 1 < n \<longrightarrow> consumes s (JSONArray_loop n acc s)) \<and>
   (\<forall>ps s. 2 * length s + 1 < n \<longrightarrow> consumes s (JSONObject_loop n ps s))"
proof (induction n)
  case 0
  show ?case by simp
next
  case (Suc n)
  then have ih_scan: "\<And>s. 2 * length s < n \<Longrightarrow> consumes s (scan_once n s)"
    and ih_arr: "\<And>acc s. 2 * length s + 1 < n \<Longrightarrow> consumes s (JSONArray_loop n acc s)"
    and ih_obj: "\<And>ps s. 2 * length s + 1 < n \<Longrightarrow> consumes s (JSONObject_loop n ps s)"
    by blast+
  have a: "consumes s (scan_once (Suc n) s)" if b: "2 * length s < Suc n" for s
  proof (cases s)
    case Nil
    then show ?thesis by (simp add: consumes_simps)
  next
    case (Cons c cs)
    consider "c = dq" | "c \<noteq> dq" "c = CHR ''{''" | "c \<noteq> dq" "c \<noteq> CHR ''{''" "c = CHR ''[''"
      | "c \<noteq> dq" "c \<noteq> CHR ''{''" "c \<noteq> CHR ''[''"
      by blast
    then show ?thesis
    proof cases
      case 1
      have "consumes cs (scanstring cs)" by (rule consumes_scanstring)
      then have "consumes s (scanstring cs)" by (rule consumes_mono) (simp add: Cons)
      then show ?thesis
        by (cases "scanstring cs") (auto simp: Cons 1 consumes_simps)
    next
      case 2
      show ?thesis
      proof (cases "skip_ws cs")
        case Nil
        then show ?thesis by (simp add: Cons 2 consumes_simps brackets_not_dq)
      next
        case sk: (Cons c1 r1)
        then have l: "length r1 < length cs" by (rule skip_ws_Cons_length)
        then have "2 * length r1 + 1 < n" using b Cons by simp
        then have "consumes r1 (JSONObject_loop n [] r1)" by (rule ih_obj)
        then have "consumes s (JSONObject_loop n [] r1)"
          by (rule consumes_mono) (use l Cons in simp)
        then show ?thesis
          using l by (simp add: Cons 2 sk consumes_simps brackets_not_dq)
      qed
    next
      case 3
      show ?thesis
      proof (cases "skip_ws cs")
        case Nil
        then show ?thesis by (simp add: Cons 3 consumes_simps brackets_not_dq)
      next
        case sk: (Cons c1 r1)
        then have l: "length r1 < length cs" by (rule skip_ws_Cons_length)
        then have "2 * length (c1 # r1) + 1 < n" using b Cons by simp
        then have "consumes (c1 # r1) (JSONArray_loop n [] (c1 # r1))" by (rule ih_arr)
        then have "consumes s (JSONArray_loop n [] (c1 # r1))"
          by (rule consumes_mono) (use l Cons in simp)
        then show ?thesis
          using l by (simp add: Cons 3 sk consumes_simps brackets_not_dq)
      qed
    next
      case 4
      then have "scan_once (Suc n) s = scan_atom s" by (simp add: Cons)
      then show ?thesis by (simp add: consumes_scan_atom)
    qed
  qed
  have arr: "consumes s (JSONArray_loop (Suc n) acc s)" if b: "2 * length s + 1 < Suc n" for acc s
  proof -
    have c: "consumes s (scan_once n s)" using b by (intro ih_scan) simp
    show ?thesis
    proof (cases "scan_once n s")
      case (Inl e)
      with c show ?thesis by (simp add: consumes_simps)
    next
      case (Inr p)
      obtain v rest where p: "p = (v, rest)" by (cases p)
      with c Inr have l: "length rest < length s" by (simp add: consumes_simps)
      show ?thesis
      proof (cases "skip_ws rest")
        case Nil
        then show ?thesis by (simp add: Inr p consumes_simps)
      next
        case sk: (Cons c1 r)
        then have l1: "length r < length rest" by (rule skip_ws_Cons_length)
        have "length (skip_ws r) \<le> length r" by (rule length_skip_ws)
        then have l2: "length (skip_ws r) < length s" using l l1 by simp
        then have "2 * length (skip_ws r) + 1 < n" using b l l1 length_skip_ws [of r] by simp
        then have "consumes (skip_ws r) (JSONArray_loop n (acc @ [v]) (skip_ws r))" by (rule ih_arr)
        then have "consumes s (JSONArray_loop n (acc @ [v]) (skip_ws r))"
          by (rule consumes_mono) (use l2 in simp)
        then show ?thesis
          using l l1 by (simp add: Inr p sk consumes_simps)
      qed
    qed
  qed
  have obj: "consumes s (JSONObject_loop (Suc n) ps s)" if b: "2 * length s + 1 < Suc n" for ps s
  proof (cases "scanstring s")
    case (Inl e)
    then show ?thesis using scanstring_fuel [of s] by (auto simp: consumes_simps)
  next
    case (Inr p)
    obtain key r0 where p: "p = (key, r0)" by (cases p)
    with Inr have l0: "length r0 < length s" by (simp add: scanstring_length)
    show ?thesis
    proof (cases "skip_ws r0")
      case Nil
      then show ?thesis by (simp add: Inr p consumes_simps)
    next
      case sk0: (Cons c r1)
      then have l1: "length r1 < length r0" by (rule skip_ws_Cons_length)
      show ?thesis
      proof (cases "c = CHR '':''")
        case False
        then show ?thesis by (simp add: Inr p sk0 consumes_simps)
      next
        case True
        have l1': "length (skip_ws r1) < length s"
          using l0 l1 length_skip_ws [of r1] by simp
        then have c: "consumes (skip_ws r1) (scan_once n (skip_ws r1))"
          using b by (intro ih_scan) simp
        show ?thesis
        proof (cases "scan_once n (skip_ws r1)")
          case (Inl e)
          with c show ?thesis by (simp add: Inr p sk0 True consumes_simps)
        next
          case v: (Inr q)
          obtain v r2 where q: "q = (v, r2)" by (cases q)
          with c v have l2: "length r2 < length (skip_ws r1)" by (simp add: consumes_simps)
          show ?thesis
          proof (cases "skip_ws r2")
            case Nil
            then show ?thesis by (simp add: Inr p sk0 True v q consumes_simps)
          next
            case sk2: (Cons c2 r3)
            then have l3: "length r3 < length r2" by (rule skip_ws_Cons_length)
            show ?thesis
            proof (cases "skip_ws r3")
              case Nil
              then show ?thesis
                using l1' l2 l3 by (simp add: Inr p sk0 True v q sk2 consumes_simps)
            next
              case sk3: (Cons c3 r4)
              then have l4: "length r4 < length r3" by (rule skip_ws_Cons_length)
              have "2 * length r4 + 1 < n" using b l1' l2 l3 l4 by simp
              then have "consumes r4 (JSONObject_loop n (ps @ [(key, v)]) r4)" by (rule ih_obj)
              then have "consumes s (JSONObject_loop n (ps @ [(key, v)]) r4)"
                by (rule consumes_mono) (use l1' l2 l3 l4 in simp)
              then show ?thesis
                using l1' l2 l3 by (simp add: Inr p sk0 True v q sk2 sk3 consumes_simps)
            qed
          qed
        qed
      qed
    qed
  qed
  from a arr obj show ?case by blast
qed

lemma json_loads_fuel: "json_loads s \<noteq> Inl OutOfFuel"
proof -
  have "2 * length (skip_ws s) < Suc (2 * length s)"
    using length_skip_ws [of s] by simp
  then have c: "consumes (skip_ws s) (scan_once (Suc (2 * length s)) (skip_ws s))"
    using scan_consumes [of "Suc (2 * length s)"] by blast
  show ?thesis
  proof (cases "scan_once (Suc (2 * length s)) (skip_ws s)")
    case (Inl e)
    with c show ?thesis by (simp add: json_loads_def consumes_simps del: scan_once.simps)
  next
    case (Inr p)
    then show ?thesis by (simp add: json_loads_def split_beta del: scan_once.simps)
  qed
qed

section \<open>The store file\<close>



lemma save_store_eq:
  "save_store data files =
     (files(with_suffix NOTES_FILE ''.tmp'' := None))(NOTES_FILE \<mapsto> json_dumps data)"
  by (simp add: save_store_def shutil_move_def Let_def)

lemma save_store_file: "save_store data files NOTES_FILE = Some (json_dumps data)"
  by (simp add: save_store_eq)

lemma ensure_store_present: "files NOTES_FILE = Some t \<Longrightarrow> ensure_store files = files"
  by (simp add: ensure_store_def)

lemma ensure_store_idem: "ensure_store (ensure_store files) = ensure_store files"
  by (simp add: ensure_store_def)

lemma ensure_store_save: "ensure_store (save_store data files) = save_store data files"
  by (simp add: ensure_store_def save_store_file)

lemma snd_load_store: "snd (load_store files) = ensure_store files"
  by (simp add: load_store_def Let_def)

lemma load_store_ensure: "load_store (ensure_store files) = load_store files"
  by (simp add: load_store_def Let_def ensure_store_idem)

lemma load_store_present:
  "files NOTES_FILE = Some t \<Longrightarrow> load_store files = (json_loads t, files)"
  by (simp add: load_store_def Let_def ensure_store_present)

lemma load_store_save:
  "wf_json data \<Longrightarrow> load_store (save_store data files) = (Inr data, save_store data files)"
  using load_store_present [of "save_store data files" "json_dumps data"]
  by (simp add: save_store_file json_loads_dumps)

lemma wf_initial_store: "wf_json initial_store"
  by (simp add: initial_store_def)

lemma load_store_absent:
  "files NOTES_FILE = None \<Longrightarrow>
   load_store files = (Inr initial_store, files(NOTES_FILE \<mapsto> json_dumps initial_store))"
  by (simp add: load_store_def Let_def ensure_store_def json_loads_dumps wf_initial_store)

lemma load_store_wf:
  assumes "load_store files = (Inr data, files')"
  shows "wf_json data" and "files' = ensure_store files"
proof -
  show "files' = ensure_store files"
    using assms snd_load_store [of files] by simp
  obtain t where t: "ensure_store files NOTES_FILE = Some t"
    by (cases "files NOTES_FILE") (auto simp: ensure_store_def)
  then have "json_loads t = Inr data"
    using assms by (simp add: load_store_def Let_def)
  then show "wf_json data" by (rule json_loads_wf)
qed

section \<open>Dicts\<close>

lemma dict_get_set: "dict_get (dict_set d k v) k' = (if k' = k then Some v else dict_get d k')"
  by (induction d) auto

lemma dict_get_in: "dict_get d k = Some v \<Longrightarrow> (k, v) \<in> set d"
  by (induction d) (auto split: if_splits)

lemma wf_dict_get: "wf_json (JObj d) \<Longrightarrow> dict_get d k = Some v \<Longrightarrow> wf_json v"
  using dict_get_in [of d k v] by (auto simp: list_all_iff)

lemma wf_dict_set: "wf_json (JObj d) \<Longrightarrow> wf_json v \<Longrightarrow> wf_json (JObj (dict_set d k v))"
  by (simp add: dict_set_keys dict_set_wf)

section \<open>Comprehensions\<close>

lemma filter_result_total:
  "(\<And>x. x \<in> set xs \<Longrightarrow> f x = Inr (p x)) \<Longrightarrow> filter_result f xs = Inr (filter p xs)"
  by (induction xs) auto

lemma map_result_total:
  "(\<And>x. x \<in> set xs \<Longrightarrow> f x = Inr (g x)) \<Longrightarrow> map_result f xs = Inr (map g xs)"
  by (induction xs) auto

lemma map_result_Inr:
  "map_result f xs = Inr ys \<Longrightarrow> list_all2 (\<lambda>x y. f x = Inr y) xs ys"
  by (induction xs arbitrary: ys) (auto split: sum.splits)

lemma map_result_rel:
  "list_all2 (\<lambda>x y. f x = Inr y) xs ys \<Longrightarrow> map_result f xs = Inr ys"
  by (induction xs ys rule: list_all2_induct) auto

lemma list_all2_filter:
  "list_all2 R xs ys \<Longrightarrow> (\<And>x y. R x y \<Longrightarrow> p x = q y) \<Longrightarrow>
   list_all2 R (filter p xs) (filter q ys)"
  by (induction xs ys rule: list_all2_induct) auto

lemma list_all2_ex:
  "list_all2 R xs ys \<Longrightarrow> (\<And>x y. R x y \<Longrightarrow> p x = q y) \<Longrightarrow>
   (\<exists>x \<in> set xs. p x) = (\<exists>y \<in> set ys. q y)"
  by (induction xs ys rule: list_all2_induct) auto

lemma length_filter_eq: "(length (filter p xs) = length xs) = (\<forall>x \<in> set xs. p x)"
proof (induction xs)
  case Nil
  then show ?case by simp
next
  case (Cons x xs)
  have "length (filter p xs) \<le> length xs" by simp
  then have "length (filter p xs) \<noteq> Suc (length xs)" by arith
  with Cons show ?case by auto
qed

section \<open>Deleting\<close>

lemma keeps_dict: "is_dict n \<Longrightarrow> keeps k n = Inr (\<not> has_id k n)"
  by (cases n) (auto simp: keeps_def has_id_def is_dict_def split: option.splits)

lemma note_of_dict_Inr:
  assumes "note_of_dict n = Inr x"
  shows "is_dict n" and "has_id k n = py_eq_int (note_id x) k"
proof -
  from assms obtain kvs where n: "n = JObj kvs"
    by (cases n) (auto simp: note_of_dict_def)
  then show "is_dict n" by (simp add: is_dict_def)
  from assms n have "dict_get kvs ''id'' = Some (note_id x)"
    by (auto simp: note_of_dict_def split: option.splits if_splits)
  then show "has_id k n = py_eq_int (note_id x) k"
    by (simp add: has_id_def n)
qed

lemma delete_note_stored:
  assumes "load_store files = (Inr (JObj kvs), files')"
    and "py_iter (case dict_get kvs ''notes'' of None \<Rightarrow> JArr [] | Some v \<Rightarrow> v) = Inr ns"
    and "list_all is_dict ns"
  shows "delete_note k files =
     (if \<exists>n \<in> set ns. has_id k n
      then (Inr True,
            save_store (JObj (dict_set kvs ''notes'' (JArr (filter (\<lambda>n. \<not> has_id k n) ns)))) files')
      else (Inr False, files'))"
proof -
  have f: "filter_result (keeps k) ns = Inr (filter (\<lambda>n. \<not> has_id k n) ns)"
    using assms(3) by (intro filter_result_total) (simp add: keeps_dict list_all_iff)
  show ?thesis
    using assms(1,2)
    by (simp add: delete_note_def py_get_def f length_filter_eq)
qed

lemma list_notes_Inr:
  assumes "list_notes files = (Inr notes, files')"
  obtains kvs ns where "load_store files = (Inr (JObj kvs), files')"
    and "py_iter (case dict_get kvs ''notes'' of None \<Rightarrow> JArr [] | Some v \<Rightarrow> v) = Inr ns"
    and "map_result note_of_dict ns = Inr notes"
proof -
  obtain r f where l: "load_store files = (r, f)" by (cases "load_store files")
  with assms obtain data where r: "r = Inr data" and f: "f = files'"
    by (cases r) (auto simp: list_notes_def split: sum.splits)
  from assms l r obtain kvs where d: "data = JObj kvs"
    by (cases data) (auto simp: list_notes_def py_get_def)
  from assms l r d obtain ns
    where "py_iter (case dict_get kvs ''notes'' of None \<Rightarrow> JArr [] | Some v \<Rightarrow> v) = Inr ns"
      and "map_result note_of_dict ns = Inr notes"
    by (auto simp: list_notes_def py_get_def split: sum.splits)
  with l r d f that show ?thesis by blast
qed

lemma list_notes_stored:
  assumes "load_store files = (Inr (JObj kvs), files')"
    and "py_iter (case dict_get kvs ''notes'' of None \<Rightarrow> JArr [] | Some v \<Rightarrow> v) = Inr ns"
  shows "list_notes files = (map_result note_of_dict ns, files')"
  using assms by (simp add: list_notes_def py_get_def)

lemma list_notes_ensure: "list_notes (ensure_store files) = list_notes files"
  by (simp add: list_notes_def load_store_ensure)

lemma delete_note_notes:
  assumes "list_notes files = (Inr notes, files')"
  shows "fst (delete_note k files) = Inr (\<exists>n \<in> set notes. py_eq_int (note_id n) k)"
    and "list_notes (snd (delete_note k files))
         = (Inr (filter (\<lambda>n. \<not> py_eq_int (note_id n) k) notes), snd (delete_note k files))"
proof -
  from assms obtain kvs ns where l: "load_store files = (Inr (JObj kvs), files')"
    and it: "py_iter (case dict_get kvs ''notes'' of None \<Rightarrow> JArr [] | Some v \<Rightarrow> v) = Inr ns"
    and m: "map_result note_of_dict ns = Inr notes"
    by (rule list_notes_Inr)
  have rel: "list_all2 (\<lambda>n x. note_of_dict n = Inr x) ns notes"
    using m by (rule map_result_Inr)
  have dicts: "list_all is_dict ns"
    using rel note_of_dict_Inr(1) by (auto simp: list_all_iff list_all2_conv_all_nth in_set_conv_nth)
  have ex: "(\<exists>n \<in> set ns. has_id k n) = (\<exists>x \<in> set notes. py_eq_int (note_id x) k)"
    using rel by (rule list_all2_ex) (rule note_of_dict_Inr(2))
  have d: "delete_note k files =
     (if \<exists>n \<in> set ns. has_id k n
      then (Inr True,
            save_store (JObj (dict_set kvs ''notes'' (JArr (filter (\<lambda>n. \<not> has_id k n) ns)))) files')
      else (Inr False, files'))"
    using l it dicts by (rule delete_note_stored)
  show "fst (delete_note k files) = Inr (\<exists>n \<in> set notes. py_eq_int (note_id n) k)"
    using d ex by simp
  show "list_notes (snd (delete_note k files))
         = (Inr (filter (\<lambda>n. \<not> py_eq_int (note_id n) k) notes), snd (delete_note k files))"
  proof (cases "\<exists>n \<in> set ns. has_id k n")
    case False
    then have s: "snd (delete_note k files) = files'" using d by simp
    have e: "files' = ensure_store files" using l by (rule load_store_wf(2))
    have "filter (\<lambda>n. \<not> py_eq_int (note_id n) k) notes = notes"
      using False ex by simp
    then show ?thesis
      using assms by (simp add: s e list_notes_ensure)
  next
    case True
    define new where "new = filter (\<lambda>n. \<not> has_id k n) ns"
    define data' where "data' = JObj (dict_set kvs ''notes'' (JArr new))"
    have s: "snd (delete_note k files) = save_store data' files'"
      using d True by (simp add: data'_def new_def)
    have wf: "wf_json (JObj kvs)" using l by (rule load_store_wf(1))
    have "ns \<noteq> []" using True by auto
    then obtain n ns' where n: "ns = n # ns'" by (cases ns) auto
    then have "is_dict n" using dicts by simp
    then have v: "dict_get kvs ''notes'' = Some (JArr ns)"
      using it n
      by (cases "dict_get kvs ''notes''"; cases "the (dict_get kvs ''notes'')")
         (auto simp: is_dict_def)
    have "wf_json (JArr ns)" using wf v by (rule wf_dict_get)
    then have "wf_json (JArr new)" by (simp add: new_def list_all_iff)
    then have wf': "wf_json data'" unfolding data'_def using wf by (intro wf_dict_set)
    have l': "load_store (save_store data' files') = (Inr data', save_store data' files')"
      using wf' by (rule load_store_save)
    have "list_all2 (\<lambda>n x. note_of_dict n = Inr x) new (filter (\<lambda>n. \<not> py_eq_int (note_id n) k) notes)"
      unfolding new_def using rel by (rule list_all2_filter) (simp add: note_of_dict_Inr(2))
    then have "map_result note_of_dict new = Inr (filter (\<lambda>n. \<not> py_eq_int (note_id n) k) notes)"
      by (rule map_result_rel)
    moreover have "list_notes (save_store data' files')
        = (map_result note_of_dict new, save_store data' files')"
      using l' unfolding data'_def by (rule list_notes_stored) (simp add: dict_get_set)
    ultimately show ?thesis by (simp add: s)
  qed
qed

lemma wf_example_store: "wf_json example_store"
  by (simp add: example_store_def asdict_def example_note_def)

lemma load_example: "load_store example_files = (Inr example_store, example_files)"
  using load_store_present [of example_files "json_dumps example_store"]
  by (simp add: example_files_def json_loads_dumps wf_example_store)

lemma note_of_dict_asdict: "note_of_dict (asdict n) = Inr n"
  by (simp add: note_of_dict_def asdict_def)

lemma list_example:
  "list_notes example_files
   = (Inr [example_note 7 ''Buy milk'', example_note 7 ''Walk dog'', example_note 8 ''Call Bob''],
      example_files)"
  by (simp add: list_notes_def load_example py_get_def example_store_def note_of_dict_asdict)

lemma find_note_notes:
  "list_notes files = (Inr notes, files') \<Longrightarrow>
   find_note k files = (Inr (find (\<lambda>n. py_eq_int (note_id n) k) notes), files')"
  by (simp add: find_note_def)

lemma find_filter_not: "find p (filter (\<lambda>x. \<not> p x) xs) = None"
  by (induction xs) auto

text \<open>
  C10. \<^verbatim>\<open>delete_note\<close> removes every note that has the id, not only the first one, and
  answers whether there was one; \<^verbatim>\<open>find_note\<close> returns the first note, in the stored
  order, that has the id.
\<close>

theorem delete_note_removes_every_match:
  "list_notes files = (Inr notes, files') \<Longrightarrow>
   fst (delete_note k files) = Inr (\<exists>n \<in> set notes. py_eq_int (note_id n) k) \<and>
   fst (list_notes (snd (delete_note k files)))
     = Inr (filter (\<lambda>n. \<not> py_eq_int (note_id n) k) notes) \<and>
   ((\<exists>i < length notes. py_eq_int (note_id (notes ! i)) k \<and>
        (\<forall>j < i. \<not> py_eq_int (note_id (notes ! j)) k) \<and>
        fst (find_note k files) = Inr (Some (notes ! i)))
    \<or> ((\<forall>n \<in> set notes. \<not> py_eq_int (note_id n) k) \<and> fst (find_note k files) = Inr None))"
proof -
  assume a: "list_notes files = (Inr notes, files')"
  have f: "fst (find_note k files) = Inr (find (\<lambda>n. py_eq_int (note_id n) k) notes)"
    using find_note_notes [OF a] by simp
  have "(\<exists>i < length notes. py_eq_int (note_id (notes ! i)) k \<and>
        (\<forall>j < i. \<not> py_eq_int (note_id (notes ! j)) k) \<and>
        fst (find_note k files) = Inr (Some (notes ! i)))
    \<or> ((\<forall>n \<in> set notes. \<not> py_eq_int (note_id n) k) \<and> fst (find_note k files) = Inr None)"
  proof (cases "find (\<lambda>n. py_eq_int (note_id n) k) notes")
    case None
    then show ?thesis using f by (simp add: find_None_iff)
  next
    case (Some x)
    then obtain i where "i < length notes" "py_eq_int (note_id (notes ! i)) k" "x = notes ! i"
      "\<forall>j < i. \<not> py_eq_int (note_id (notes ! j)) k"
      unfolding find_Some_iff by blast
    then show ?thesis using f Some by auto
  qed
  then show ?thesis
    using delete_note_notes [OF a, of k] by simp
qed

theorem delete_note_removes_every_match_witness:
  "list_notes example_files
     = (Inr [example_note 7 ''Buy milk'', example_note 7 ''Walk dog'', example_note 8 ''Call Bob''],
        example_files) \<and>
   fst (delete_note 7 example_files) = Inr True \<and>
   fst (list_notes (snd (delete_note 7 example_files))) = Inr [example_note 8 ''Call Bob''] \<and>
   fst (find_note 7 example_files) = Inr (Some (example_note 7 ''Buy milk''))"
proof -
  have "fst (find_note 7 example_files) = Inr (Some (example_note 7 ''Buy milk''))"
    by (simp add: find_note_def list_example example_note_def)
  then show ?thesis
    using delete_note_removes_every_match [OF list_example, of 7] list_example
    by (simp add: example_note_def)
qed

text \<open>
  C5. After \<^verbatim>\<open>delete_note(id)\<close>, \<^verbatim>\<open>find_note(id)\<close> on the store that results finds no note.
\<close>

theorem delete_then_find_absent:
  "list_notes files = (Inr notes, files') \<Longrightarrow>
   fst (find_note k (snd (delete_note k files))) = Inr None"
proof -
  assume a: "list_notes files = (Inr notes, files')"
  have "find_note k (snd (delete_note k files))
      = (Inr (find (\<lambda>n. py_eq_int (note_id n) k) (filter (\<lambda>n. \<not> py_eq_int (note_id n) k) notes)),
         snd (delete_note k files))"
    using delete_note_notes(2) [OF a, of k] by (rule find_note_notes)
  then show ?thesis by (simp add: find_filter_not)
qed

theorem delete_then_find_absent_witness:
  "list_notes example_files
     = (Inr [example_note 7 ''Buy milk'', example_note 7 ''Walk dog'', example_note 8 ''Call Bob''],
        example_files) \<and>
   fst (find_note 7 example_files) = Inr (Some (example_note 7 ''Buy milk'')) \<and>
   fst (find_note 7 (snd (delete_note 7 example_files))) = Inr None"
  using delete_then_find_absent [OF list_example, of 7] list_example
  by (simp add: find_note_def example_note_def)

text \<open>
  C3. \<^verbatim>\<open>delete_note(id)\<close> returns \<^verbatim>\<open>True\<close> and saves the store without the notes of that id
  exactly when a stored note has the id. Otherwise it returns \<^verbatim>\<open>False\<close> and does not
  save: the file system is the one \<^verbatim>\<open>load_store\<close> left, which is the one before the call
  when the store file existed.
\<close>

theorem delete_note_saves_iff_present:
  "load_store files = (Inr (JObj kvs), files') \<Longrightarrow>
   dict_get kvs ''notes'' = Some (JArr ns) \<Longrightarrow>
   list_all is_dict ns \<Longrightarrow>
   (if \<exists>n \<in> set ns. has_id k n
    then delete_note k files =
           (Inr True,
            save_store (JObj (dict_set kvs ''notes'' (JArr (filter (\<lambda>n. \<not> has_id k n) ns)))) files')
    else delete_note k files = (Inr False, files')) \<and>
   files' = ensure_store files \<and>
   (files NOTES_FILE \<noteq> None \<longrightarrow> files' = files)"
proof -
  assume l: "load_store files = (Inr (JObj kvs), files')"
    and v: "dict_get kvs ''notes'' = Some (JArr ns)"
    and d: "list_all is_dict ns"
  have "py_iter (case dict_get kvs ''notes'' of None \<Rightarrow> JArr [] | Some v \<Rightarrow> v) = Inr ns"
    using v by simp
  from delete_note_stored [OF l this d, of k]
  have 1: "if \<exists>n \<in> set ns. has_id k n
    then delete_note k files =
           (Inr True,
            save_store (JObj (dict_set kvs ''notes'' (JArr (filter (\<lambda>n. \<not> has_id k n) ns)))) files')
    else delete_note k files = (Inr False, files')"
    by (simp split: if_splits)
  have 2: "files' = ensure_store files" using l by (rule load_store_wf(2))
  have 3: "files NOTES_FILE \<noteq> None \<longrightarrow> files' = files"
    using 2 by (auto simp: ensure_store_present)
  from 1 2 3 show ?thesis by blast
qed

theorem delete_note_saves_iff_present_witness:
  "load_store example_files = (Inr example_store, example_files) \<and>
   delete_note 5 example_files = (Inr False, example_files) \<and>
   fst (delete_note 8 example_files) = Inr True \<and>
   snd (delete_note 8 example_files) NOTES_FILE
     = Some (json_dumps (JObj [(''next_id'', JInt 9),
          (''notes'', JArr [asdict (example_note 7 ''Buy milk''), asdict (example_note 7 ''Walk dog'')])]))"
proof -
  let ?ns = "[asdict (example_note 7 ''Buy milk''), asdict (example_note 7 ''Walk dog''),
              asdict (example_note 8 ''Call Bob'')]"
  have l: "load_store example_files = (Inr (JObj [(''next_id'', JInt 9), (''notes'', JArr ?ns)]), example_files)"
    using load_example by (simp add: example_store_def)
  have v: "dict_get [(''next_id'', JInt 9), (''notes'', JArr ?ns)] ''notes'' = Some (JArr ?ns)"
    by simp
  have d: "list_all is_dict ?ns"
    by (simp add: is_dict_def asdict_def)
  show ?thesis
    using delete_note_saves_iff_present [OF l v d, of 5] delete_note_saves_iff_present [OF l v d, of 8]
      load_example
    by (simp add: has_id_def asdict_def example_note_def save_store_file)
qed

section \<open>Trimming\<close>

lemma dropWhile_rev_split:
  "xs = rev (dropWhile P (rev xs)) @ rev (takeWhile P (rev xs))"
  using takeWhile_dropWhile_id [of P "rev xs"] by (metis rev_append rev_rev_ident)

lemma strip_trimmed: "trimmed s (strip s)"
proof -
  let ?d = "dropWhile isspace s"
  have 1: "s = takeWhile isspace s @ strip s @ rev (takeWhile isspace (rev ?d))"
    using dropWhile_rev_split [of ?d isspace] by (simp add: strip_def)
  have 2: "list_all isspace (takeWhile isspace s)"
    by (simp add: list_all_iff) (meson set_takeWhileD)
  have 3: "list_all isspace (rev (takeWhile isspace (rev ?d)))"
    by (simp add: list_all_iff) (meson set_takeWhileD)
  have 4: "strip s = [] \<or> (\<not> isspace (hd (strip s)) \<and> \<not> isspace (last (strip s)))"
  proof (cases "strip s = []")
    case True
    then show ?thesis by simp
  next
    case False
    let ?e = "dropWhile isspace (rev ?d)"
    have e: "?e \<noteq> []" using False by (simp add: strip_def)
    then have l: "\<not> isspace (hd ?e)" by (rule hd_dropWhile)
    have "last (strip s) = hd ?e" using e by (simp add: strip_def last_rev)
    with l have a: "\<not> isspace (last (strip s))" by simp
    have d: "?d \<noteq> []"
    proof
      assume "?d = []"
      then have "?e = []" by (simp only: rev.simps dropWhile.simps)
      with e show False by blast
    qed
    then have hd: "\<not> isspace (hd ?d)" by (rule hd_dropWhile)
    have "rev ?d = takeWhile isspace (rev ?d) @ ?e" by simp
    then have "?d = rev ?e @ rev (takeWhile isspace (rev ?d))"
      by (metis rev_append rev_rev_ident)
    then have "hd ?d = hd (rev ?e)" using e by (metis hd_append2 rev_is_Nil_conv)
    with hd have "\<not> isspace (hd (strip s))" by (simp add: strip_def)
    with a show ?thesis by simp
  qed
  from 1 2 3 4 show ?thesis unfolding trimmed_def by blast
qed

lemma dropWhile_all: "list_all P xs \<Longrightarrow> dropWhile P (xs @ ys) = dropWhile P ys"
  by (induction xs) auto

lemma trimmed_strip: "trimmed s r \<Longrightarrow> strip s = r"
proof -
  assume "trimmed s r"
  then obtain pre post where s: "s = pre @ r @ post" and pre: "list_all isspace pre"
    and post: "list_all isspace post"
    and r: "r = [] \<or> (\<not> isspace (hd r) \<and> \<not> isspace (last r))"
    unfolding trimmed_def by blast
  show ?thesis
  proof (cases "r = []")
    case True
    have "\<forall>x \<in> set (pre @ post). isspace x" using pre post by (auto simp: list_all_iff)
    then have "dropWhile isspace (pre @ post) = []"
      unfolding dropWhile_eq_Nil_conv .
    then have d: "dropWhile isspace s = []" by (simp only: s True append_Nil)
    show ?thesis unfolding strip_def d by (simp add: True)
  next
    case False
    with r have h: "\<not> isspace (hd r)" and l: "\<not> isspace (last r)" by auto
    have "dropWhile isspace s = dropWhile isspace (r @ post)"
      unfolding s using pre by (rule dropWhile_all)
    also have "\<dots> = r @ post" using False h by (cases r) auto
    finally have d: "dropWhile isspace s = r @ post" .
    have "list_all isspace (rev post)" using post by (simp add: list_all_iff)
    then have "dropWhile isspace (rev post @ rev r) = dropWhile isspace (rev r)"
      by (rule dropWhile_all)
    also have "\<dots> = rev r" using False l by (cases "rev r") (auto simp: last_rev hd_rev)
    finally show ?thesis by (simp add: strip_def d)
  qed
qed

lemma trimmed_iff: "trimmed s r = (r = strip s)"
  using strip_trimmed trimmed_strip by blast

section \<open>Adding\<close>

lemma add_note_tags:
  "map (\<lambda>t. JStr (strip t)) (filter (\<lambda>t. strip t \<noteq> []) ts)
   = map JStr (filter (\<lambda>s. s \<noteq> []) (map strip ts))"
  by (induction ts) auto

lemma add_note_stored:
  assumes "load_store files = (Inr (JObj kvs), files')"
    and "dict_get kvs ''next_id'' = Some (JInt nid)"
    and "dict_get kvs ''notes'' = Some (JArr ns)"
  shows "add_note now t b tg files =
     (Inr (spec_note now t b tg nid),
      save_store
        (JObj (dict_set (dict_set kvs ''notes'' (JArr (ns @ [asdict (spec_note now t b tg nid)])))
                 ''next_id'' (JInt (nid + 1))))
        files')"
  using assms by (simp add: add_note_def Let_def spec_note_def add_note_tags)

lemma wf_asdict_spec_note: "wf_json (asdict (spec_note now t b tg nid))"
  by (simp add: asdict_def spec_note_def list_all_iff)

lemma add_note_data_wf:
  assumes "wf_json (JObj kvs)" and "dict_get kvs ''notes'' = Some (JArr ns)"
  shows "wf_json (JObj (dict_set (dict_set kvs ''notes'' (JArr (ns @ [asdict (spec_note now t b tg nid)])))
                 ''next_id'' (JInt (nid + 1))))"
proof -
  have "wf_json (JArr ns)" using assms by (rule wf_dict_get)
  then have "wf_json (JArr (ns @ [asdict (spec_note now t b tg nid)]))"
    using wf_asdict_spec_note [of now t b tg nid] by simp
  then have "wf_json (JObj (dict_set kvs ''notes'' (JArr (ns @ [asdict (spec_note now t b tg nid)]))))"
    using assms(1) by (intro wf_dict_set)
  then show ?thesis by (rule wf_dict_set) simp
qed

text \<open>
  C1. On a store whose counter is the integer \<open>nid\<close> and whose notes are the list \<open>ns\<close>,
  \<^verbatim>\<open>add_note\<close> returns the note of the specification (id \<open>nid\<close>, trimmed title and body,
  trimmed non-empty tags, the time stamp with \<^verbatim>\<open>Z\<close>) and saves the store: the saved file
  loads as a dict whose notes are \<open>ns\<close> with the record of the new note at the end, whose
  counter is \<open>nid + 1\<close>, and whose other keys are unchanged.
\<close>

theorem add_note_creates_appends_increments:
  "load_store files = (Inr (JObj kvs), files') \<Longrightarrow>
   dict_get kvs ''next_id'' = Some (JInt nid) \<Longrightarrow>
   dict_get kvs ''notes'' = Some (JArr ns) \<Longrightarrow>
   (\<exists>n kvs' files''.
      add_note now t b tg files = (Inr n, files'') \<and>
      n = spec_note now t b tg nid \<and>
      note_id n = JInt nid \<and>
      trimmed t (the_str (title n)) \<and>
      trimmed b (the_str (body n)) \<and>
      created_at n = JStr (isoformat now @ ''Z'') \<and>
      files'' NOTES_FILE = Some (json_dumps (JObj kvs')) \<and>
      load_store files'' = (Inr (JObj kvs'), files'') \<and>
      dict_get kvs' ''notes'' = Some (JArr (ns @ [asdict n])) \<and>
      dict_get kvs' ''next_id'' = Some (JInt (nid + 1)) \<and>
      (\<forall>k. k \<noteq> ''notes'' \<and> k \<noteq> ''next_id'' \<longrightarrow> dict_get kvs' k = dict_get kvs k))"
proof -
  assume l: "load_store files = (Inr (JObj kvs), files')"
    and i: "dict_get kvs ''next_id'' = Some (JInt nid)"
    and v: "dict_get kvs ''notes'' = Some (JArr ns)"
  define n where "n = spec_note now t b tg nid"
  define kvs' where "kvs' = dict_set (dict_set kvs ''notes'' (JArr (ns @ [asdict n]))) ''next_id'' (JInt (nid + 1))"
  define files'' where "files'' = save_store (JObj kvs') files'"
  have a: "add_note now t b tg files = (Inr n, files'')"
    using add_note_stored [OF l i v, of now t b tg] by (simp add: n_def kvs'_def files''_def)
  have wf: "wf_json (JObj kvs')"
    unfolding kvs'_def n_def using load_store_wf(1) [OF l] v by (rule add_note_data_wf)
  have ld: "load_store files'' = (Inr (JObj kvs'), files'')"
    unfolding files''_def using wf by (rule load_store_save)
  have f: "files'' NOTES_FILE = Some (json_dumps (JObj kvs'))"
    by (simp add: files''_def save_store_file)
  have g: "dict_get kvs' ''notes'' = Some (JArr (ns @ [asdict n]))"
    "dict_get kvs' ''next_id'' = Some (JInt (nid + 1))"
    "\<forall>k. k \<noteq> ''notes'' \<and> k \<noteq> ''next_id'' \<longrightarrow> dict_get kvs' k = dict_get kvs k"
    by (simp_all add: kvs'_def dict_get_set)
  have tr: "trimmed t (the_str (title n))" "trimmed b (the_str (body n))"
    by (simp_all add: n_def spec_note_def strip_trimmed)
  have m: "note_id n = JInt nid" "created_at n = JStr (isoformat now @ ''Z'')"
    by (simp_all add: n_def spec_note_def)
  from a ld f g tr m n_def show ?thesis by blast
qed

lemma zero_pad_examples:
  "zero_pad 4 2024 = ''2024''" "zero_pad 2 3 = ''03''" "zero_pad 2 9 = ''09''" "zero_pad 2 14 = ''14''"
  "zero_pad 2 2 = ''02''" "zero_pad 6 45 = ''000045''"
  by code_simp+

lemma example_created: "isoformat example_now @ ''Z'' = ''2024-03-09T14:02:03.000045Z''"
  by (simp add: isoformat_def example_now_def zero_pad_examples)

lemma example_strips:
  "strip '' Buy eggs '' = ''Buy eggs''" "strip ''12'' = ''12''" "strip '' food'' = ''food''"
  "strip '' '' = []" "strip ''home'' = ''home''"
  by (simp_all add: strip_def isspace_def)

lemma loaded_eq: "load_store files = (Inr data, files') \<Longrightarrow> loaded files = data"
  by (simp add: loaded_def)




theorem add_note_creates_appends_increments_witness:
  "load_store example_files = (Inr example_store, example_files) \<and>
   stored_next_id example_store = JInt 9 \<and>
   fst (add_note example_now '' Buy eggs '' ''12'' (Some ['' food'', '' '', ''home'']) example_files)
     = Inr \<lparr>note_id = JInt 9, title = JStr ''Buy eggs'', body = JStr ''12'',
            tags = JArr [JStr ''food'', JStr ''home''],
            created_at = JStr ''2024-03-09T14:02:03.000045Z''\<rparr> \<and>
   stored_next_id
     (loaded (snd (add_note example_now '' Buy eggs '' ''12'' (Some ['' food'', '' '', ''home''])
        example_files))) = JInt 10 \<and>
   stored_ids
     (loaded (snd (add_note example_now '' Buy eggs '' ''12'' (Some ['' food'', '' '', ''home''])
        example_files))) = [JInt 7, JInt 7, JInt 8, JInt 9]"
proof -
  define ns where "ns = [asdict (example_note 7 ''Buy milk''), asdict (example_note 7 ''Walk dog''),
              asdict (example_note 8 ''Call Bob'')]"
  define kvs where "kvs = [(''next_id'', JInt 9), (''notes'', JArr ns)]"
  define t where "t = '' Buy eggs ''"
  define b where "b = ''12''"
  define tg where "tg = Some ['' food'', '' '', ''home'']"
  define res where "res = add_note example_now t b tg example_files"
  have l: "load_store example_files = (Inr (JObj kvs), example_files)"
    using load_example by (simp add: example_store_def kvs_def ns_def)
  have i: "dict_get kvs ''next_id'' = Some (JInt 9)" by (simp add: kvs_def)
  have v: "dict_get kvs ''notes'' = Some (JArr ns)" by (simp add: kvs_def)
  have "\<exists>n kvs' files''. res = (Inr n, files'') \<and> n = spec_note example_now t b tg 9 \<and>
      note_id n = JInt 9 \<and> trimmed t (the_str (title n)) \<and> trimmed b (the_str (body n)) \<and>
      created_at n = JStr (isoformat example_now @ ''Z'') \<and>
      files'' NOTES_FILE = Some (json_dumps (JObj kvs')) \<and>
      load_store files'' = (Inr (JObj kvs'), files'') \<and>
      dict_get kvs' ''notes'' = Some (JArr (ns @ [asdict n])) \<and>
      dict_get kvs' ''next_id'' = Some (JInt (9 + 1)) \<and>
      (\<forall>k. k \<noteq> ''notes'' \<and> k \<noteq> ''next_id'' \<longrightarrow> dict_get kvs' k = dict_get kvs k)"
    unfolding res_def using l i v by (rule add_note_creates_appends_increments)
  then obtain n where "\<exists>kvs' files''. res = (Inr n, files'') \<and> n = spec_note example_now t b tg 9 \<and>
      note_id n = JInt 9 \<and> trimmed t (the_str (title n)) \<and> trimmed b (the_str (body n)) \<and>
      created_at n = JStr (isoformat example_now @ ''Z'') \<and>
      files'' NOTES_FILE = Some (json_dumps (JObj kvs')) \<and>
      load_store files'' = (Inr (JObj kvs'), files'') \<and>
      dict_get kvs' ''notes'' = Some (JArr (ns @ [asdict n])) \<and>
      dict_get kvs' ''next_id'' = Some (JInt (9 + 1)) \<and>
      (\<forall>k. k \<noteq> ''notes'' \<and> k \<noteq> ''next_id'' \<longrightarrow> dict_get kvs' k = dict_get kvs k)" ..
  then obtain kvs' where "\<exists>files''. res = (Inr n, files'') \<and> n = spec_note example_now t b tg 9 \<and>
      note_id n = JInt 9 \<and> trimmed t (the_str (title n)) \<and> trimmed b (the_str (body n)) \<and>
      created_at n = JStr (isoformat example_now @ ''Z'') \<and>
      files'' NOTES_FILE = Some (json_dumps (JObj kvs')) \<and>
      load_store files'' = (Inr (JObj kvs'), files'') \<and>
      dict_get kvs' ''notes'' = Some (JArr (ns @ [asdict n])) \<and>
      dict_get kvs' ''next_id'' = Some (JInt (9 + 1)) \<and>
      (\<forall>k. k \<noteq> ''notes'' \<and> k \<noteq> ''next_id'' \<longrightarrow> dict_get kvs' k = dict_get kvs k)" ..
  then obtain files'' where big: "res = (Inr n, files'') \<and> n = spec_note example_now t b tg 9 \<and>
      note_id n = JInt 9 \<and> trimmed t (the_str (title n)) \<and> trimmed b (the_str (body n)) \<and>
      created_at n = JStr (isoformat example_now @ ''Z'') \<and>
      files'' NOTES_FILE = Some (json_dumps (JObj kvs')) \<and>
      load_store files'' = (Inr (JObj kvs'), files'') \<and>
      dict_get kvs' ''notes'' = Some (JArr (ns @ [asdict n])) \<and>
      dict_get kvs' ''next_id'' = Some (JInt (9 + 1)) \<and>
      (\<forall>k. k \<noteq> ''notes'' \<and> k \<noteq> ''next_id'' \<longrightarrow> dict_get kvs' k = dict_get kvs k)" ..
  note a0 = big [THEN conjunct1]
  note nn = big [THEN conjunct2, THEN conjunct1]
  note ld0 = big [THEN conjunct2, THEN conjunct2, THEN conjunct2, THEN conjunct2, THEN conjunct2,
      THEN conjunct2, THEN conjunct2, THEN conjunct1]
  note g10 = big [THEN conjunct2, THEN conjunct2, THEN conjunct2, THEN conjunct2, THEN conjunct2,
      THEN conjunct2, THEN conjunct2, THEN conjunct2, THEN conjunct1]
  note g20 = big [THEN conjunct2, THEN conjunct2, THEN conjunct2, THEN conjunct2, THEN conjunct2,
      THEN conjunct2, THEN conjunct2, THEN conjunct2, THEN conjunct2, THEN conjunct1]
  have s: "snd res = files''" unfolding a0 by (rule snd_conv)
  have a: "fst res = Inr (spec_note example_now t b tg 9)" unfolding a0 nn [symmetric] by (rule fst_conv)
  have ld: "load_store (snd res) = (Inr (JObj kvs'), snd res)" unfolding s by (rule ld0)
  have g1: "dict_get kvs' ''notes'' = Some (JArr (ns @ [asdict (spec_note example_now t b tg 9)]))"
    using g10 unfolding nn .
  have g2: "dict_get kvs' ''next_id'' = Some (JInt 10)"
    using g20 by simp
  have n': "spec_note example_now t b tg 9 = \<lparr>note_id = JInt 9, title = JStr ''Buy eggs'', body = JStr ''12'',
            tags = JArr [JStr ''food'', JStr ''home''],
            created_at = JStr ''2024-03-09T14:02:03.000045Z''\<rparr>"
    by (simp add: spec_note_def example_strips example_created t_def b_def tg_def)
  have ld': "loaded (snd res) = JObj kvs'" using ld by (rule loaded_eq)
  have 1: "stored_next_id (loaded (snd res)) = JInt 10"
    unfolding ld' using g2 by (simp add: stored_next_id_def)
  have ids: "map stored_id ns = [JInt 7, JInt 7, JInt 8]"
    by (simp add: ns_def stored_id_def asdict_def example_note_def)
  have "stored_id (asdict (spec_note example_now t b tg 9)) = JInt 9"
    by (simp add: stored_id_def asdict_def spec_note_def)
  then have 2: "stored_ids (loaded (snd res)) = [JInt 7, JInt 7, JInt 8, JInt 9]"
    unfolding ld' using g1 ids by (simp add: stored_ids_def)
  have 3: "fst res = Inr \<lparr>note_id = JInt 9, title = JStr ''Buy eggs'', body = JStr ''12'',
            tags = JArr [JStr ''food'', JStr ''home''],
            created_at = JStr ''2024-03-09T14:02:03.000045Z''\<rparr>"
    unfolding a n' ..
  have 4: "stored_next_id example_store = JInt 9"
    by (simp add: example_store_def stored_next_id_def)
  from load_example 4 3 1 2 show ?thesis
    unfolding res_def t_def b_def tg_def by (intro conjI)
qed

section \<open>Sequences of operations\<close>

lemma store_inv_initial:
  assumes "files NOTES_FILE = None \<or> files NOTES_FILE = Some (json_dumps initial_store)"
  shows "store_inv 1 files"
proof -
  have "load_store files = (Inr initial_store, ensure_store files)"
  proof (cases "files NOTES_FILE")
    case None
    then show ?thesis by (simp add: load_store_absent ensure_store_def)
  next
    case (Some t)
    with assms have "t = json_dumps initial_store" by simp
    with Some show ?thesis
      by (simp add: load_store_present ensure_store_present json_loads_dumps wf_initial_store)
  qed
  then show ?thesis
    unfolding store_inv_def initial_store_def by (intro exI [of _ "[]"]) simp
qed

lemma stored_id_spec_note: "stored_id (asdict (spec_note now t b tg m)) = JInt m"
  by (simp add: stored_id_def asdict_def spec_note_def)

lemma is_dict_asdict: "is_dict (asdict n)"
  by (simp add: is_dict_def asdict_def)

lemma store_invI:
  assumes "1 \<le> m"
    and "load_store files = (Inr (JObj [(''next_id'', JInt m), (''notes'', JArr ns)]), ensure_store files)"
    and "list_all is_dict ns" and "distinct (map stored_id ns)"
    and "\<forall>n \<in> set ns. \<exists>j. stored_id n = JInt j \<and> 1 \<le> j \<and> j < m"
  shows "store_inv m files"
  unfolding store_inv_def using assms by (intro exI [of _ ns] conjI)

lemma store_invE:
  assumes "store_inv m files"
  obtains ns where "1 \<le> m"
    and "load_store files = (Inr (JObj [(''next_id'', JInt m), (''notes'', JArr ns)]), ensure_store files)"
    and "list_all is_dict ns" and "distinct (map stored_id ns)"
    and "\<forall>n \<in> set ns. \<exists>j. stored_id n = JInt j \<and> 1 \<le> j \<and> j < m"
proof -
  from assms obtain ns where "1 \<le> m \<and>
        load_store files = (Inr (JObj [(''next_id'', JInt m), (''notes'', JArr ns)]), ensure_store files) \<and>
        list_all is_dict ns \<and> distinct (map stored_id ns) \<and>
        (\<forall>n \<in> set ns. \<exists>j. stored_id n = JInt j \<and> 1 \<le> j \<and> j < m)"
    unfolding store_inv_def ..
  then show ?thesis using that by (elim conjE)
qed

lemma store_inv_add:
  assumes "store_inv m files"
  shows "\<exists>files'. perform (Add now t b tg) files = (Inr (Some (JInt m)), files') \<and> store_inv (m + 1) files'"
proof -
  from assms obtain ns where m: "1 \<le> m" and
    l: "load_store files = (Inr (JObj [(''next_id'', JInt m), (''notes'', JArr ns)]), ensure_store files)"
    and d: "list_all is_dict ns" and u: "distinct (map stored_id ns)"
    and r: "\<forall>n \<in> set ns. \<exists>j. stored_id n = JInt j \<and> 1 \<le> j \<and> j < m"
    by (rule store_invE)
  define n where "n = spec_note now t b tg m"
  define data where "data = JObj [(''next_id'', JInt (m + 1)), (''notes'', JArr (ns @ [asdict n]))]"
  define files' where "files' = save_store data (ensure_store files)"
  have a: "add_note now t b tg files = (Inr n, files')"
    using add_note_stored [OF l, of m ns now t b tg] by (simp add: n_def data_def files'_def)
  have nid: "note_id n = JInt m" by (simp add: n_def spec_note_def)
  have p: "perform (Add now t b tg) files = (Inr (Some (JInt m)), files')"
    by (simp add: perform_def a nid)
  have wf0: "wf_json (JObj [(''next_id'', JInt m), (''notes'', JArr ns)])"
    using l by (rule load_store_wf(1))
  have "wf_json (asdict n)" unfolding n_def by (rule wf_asdict_spec_note)
  with wf0 have wf: "wf_json data" by (simp add: data_def)
  have ld: "load_store files' = (Inr (JObj [(''next_id'', JInt (m + 1)), (''notes'', JArr (ns @ [asdict n]))]),
      ensure_store files')"
    unfolding files'_def data_def [symmetric] using wf by (simp add: load_store_save ensure_store_save)
  have i: "stored_id (asdict n) = JInt m" unfolding n_def by (rule stored_id_spec_note)
  have "JInt m \<notin> set (map stored_id ns)"
  proof
    assume "JInt m \<in> set (map stored_id ns)"
    then obtain x where "x \<in> set ns" "stored_id x = JInt m" by auto
    with r show False by fastforce
  qed
  then have u': "distinct (map stored_id (ns @ [asdict n]))"
    using u i by simp
  have r': "\<forall>x \<in> set (ns @ [asdict n]). \<exists>j. stored_id x = JInt j \<and> 1 \<le> j \<and> j < m + 1"
  proof
    fix x assume "x \<in> set (ns @ [asdict n])"
    then consider "x \<in> set ns" | "x = asdict n" by auto
    then show "\<exists>j. stored_id x = JInt j \<and> 1 \<le> j \<and> j < m + 1"
    proof cases
      case 1
      with r obtain j where "stored_id x = JInt j" "1 \<le> j" "j < m" by blast
      then show ?thesis by auto
    next
      case 2
      with i m show ?thesis by auto
    qed
  qed
  have d': "list_all is_dict (ns @ [asdict n])" using d by (simp add: is_dict_asdict)
  have m': "1 \<le> m + 1" using m by simp
  have "store_inv (m + 1) files'" using m' ld d' u' r' by (rule store_invI)
  with p show ?thesis by blast
qed

lemma has_id_stored_id: "has_id k n \<Longrightarrow> stored_id n = JInt j \<Longrightarrow> j = k"
  by (cases n) (auto simp: has_id_def stored_id_def split: option.splits)

lemma store_inv_del:
  assumes "store_inv m files"
  shows "\<exists>files'. perform (Del k) files = (Inr None, files') \<and> store_inv m files'"
proof -
  from assms obtain ns where m: "1 \<le> m" and
    l: "load_store files = (Inr (JObj [(''next_id'', JInt m), (''notes'', JArr ns)]), ensure_store files)"
    and d: "list_all is_dict ns" and u: "distinct (map stored_id ns)"
    and r: "\<forall>n \<in> set ns. \<exists>j. stored_id n = JInt j \<and> 1 \<le> j \<and> j < m"
    by (rule store_invE)
  define new where "new = filter (\<lambda>n. \<not> has_id k n) ns"
  define data where "data = JObj [(''next_id'', JInt m), (''notes'', JArr new)]"
  have it: "py_iter (case dict_get [(''next_id'', JInt m), (''notes'', JArr ns)] ''notes'' of
      None \<Rightarrow> JArr [] | Some v \<Rightarrow> v) = Inr ns"
    by simp
  have del: "delete_note k files =
     (if \<exists>n \<in> set ns. has_id k n then (Inr True, save_store data (ensure_store files))
      else (Inr False, ensure_store files))"
    using delete_note_stored [OF l it d, of k] by (simp add: data_def new_def)
  show ?thesis
  proof (cases "\<exists>n \<in> set ns. has_id k n")
    case False
    then have p: "perform (Del k) files = (Inr None, ensure_store files)"
      using del by (simp add: perform_def)
    have "load_store (ensure_store files)
        = (Inr (JObj [(''next_id'', JInt m), (''notes'', JArr ns)]), ensure_store (ensure_store files))"
      using l by (simp add: load_store_ensure ensure_store_idem)
    with m have "store_inv m (ensure_store files)" using d u r by (rule store_invI)
    with p show ?thesis by blast
  next
    case True
    define files' where "files' = save_store data (ensure_store files)"
    have p: "perform (Del k) files = (Inr None, files')"
      using del True by (simp add: perform_def files'_def)
    have wf0: "wf_json (JObj [(''next_id'', JInt m), (''notes'', JArr ns)])"
      using l by (rule load_store_wf(1))
    then have wf: "wf_json data" by (simp add: data_def new_def list_all_iff)
    have ld: "load_store files' = (Inr (JObj [(''next_id'', JInt m), (''notes'', JArr new)]),
        ensure_store files')"
      unfolding files'_def data_def [symmetric] using wf by (simp add: load_store_save ensure_store_save)
    have d': "list_all is_dict new" using d by (simp add: new_def list_all_iff)
    have u': "distinct (map stored_id new)" unfolding new_def using u by (rule distinct_map_filter)
    have r': "\<forall>n \<in> set new. \<exists>j. stored_id n = JInt j \<and> 1 \<le> j \<and> j < m"
      using r by (simp add: new_def)
    have "store_inv m files'" using m ld d' u' r' by (rule store_invI)
    with p show ?thesis by blast
  qed
qed

lemma run_store_inv:
  "store_inv m files \<Longrightarrow> run ops files = (rs, files') \<Longrightarrow>
   list_all (\<lambda>r. \<not> isl r) rs \<and>
   added_ids rs = map JInt [m .. m + int (count_adds ops) - 1] \<and>
   store_inv (m + int (count_adds ops)) files'"
proof (induction ops arbitrary: m files rs files')
  case Nil
  then show ?case by simp
next
  case (Cons op ops)
  obtain r f1 where p: "perform op files = (r, f1)" by (cases "perform op files")
  obtain rs1 f2 where q: "run ops f1 = (rs1, f2)" by (cases "run ops f1")
  from Cons.prems(2) p q have rs: "rs = r # rs1" and f: "files' = f2" by simp_all
  show ?case
  proof (cases op)
    case (Add now t b tg)
    from store_inv_add [OF Cons.prems(1), of now t b tg] p Add
    have r: "r = Inr (Some (JInt m))" and i: "store_inv (m + 1) f1" by auto
    from Cons.IH [OF i q]
    have ih: "list_all (\<lambda>r. \<not> isl r) rs1"
      "added_ids rs1 = map JInt [m + 1 .. m + 1 + int (count_adds ops) - 1]"
      "store_inv (m + 1 + int (count_adds ops)) f2"
      by simp_all
    have a: "added_ids rs = JInt m # added_ids rs1" by (simp add: rs r)
    have "[m .. m + int (count_adds (op # ops)) - 1]
        = m # [m + 1 .. m + 1 + int (count_adds ops) - 1]"
      by (simp add: Add upto_rec1 [of m])
    then have "added_ids rs = map JInt [m .. m + int (count_adds (op # ops)) - 1]"
      using a ih(2) by simp
    moreover have "m + int (count_adds (op # ops)) = m + 1 + int (count_adds ops)"
      by (simp add: Add)
    then have "store_inv (m + int (count_adds (op # ops))) files'"
      using ih(3) f by (simp only:)
    moreover have "list_all (\<lambda>r. \<not> isl r) rs" using ih(1) by (simp add: rs r)
    ultimately show ?thesis by blast
  next
    case (Del k)
    from store_inv_del [OF Cons.prems(1), of k] p Del
    have r: "r = Inr None" and i: "store_inv m f1" by auto
    from Cons.IH [OF i q] show ?thesis
      by (simp add: rs r f Del)
  qed
qed

text \<open>
  C2. From the initial store (no store file yet, or the file as \<^verbatim>\<open>ensure_store\<close> writes
  it), every sequence of \<^verbatim>\<open>add_note\<close> and \<^verbatim>\<open>delete_note\<close> calls runs without an error; the
  calls of \<^verbatim>\<open>add_note\<close> get the ids 1, 2, 3, ... in this order, whatever is deleted in
  between; and afterwards the counter of the store is one more than the number of notes
  added, the stored notes have different ids, and every stored id is one of the ids given
  out, hence below the counter. The sequence is any sequence, so this holds after every
  operation.
\<close>

theorem ids_increase_and_are_never_reused:
  "files NOTES_FILE = None \<or> files NOTES_FILE = Some (json_dumps initial_store) \<Longrightarrow>
   run ops files = (rs, files') \<Longrightarrow>
   list_all (\<lambda>r. \<not> isl r) rs \<and>
   added_ids rs = map JInt [1 .. int (count_adds ops)] \<and>
   stored_next_id (loaded files') = JInt (1 + int (count_adds ops)) \<and>
   distinct (stored_ids (loaded files')) \<and>
   set (stored_ids (loaded files')) \<subseteq> set (added_ids rs) \<and>
   (\<forall>i \<in> set (added_ids rs) \<union> set (stored_ids (loaded files')).
      \<exists>j. i = JInt j \<and> 1 \<le> j \<and> j < 1 + int (count_adds ops))"
proof -
  assume init: "files NOTES_FILE = None \<or> files NOTES_FILE = Some (json_dumps initial_store)"
    and run: "run ops files = (rs, files')"
  have "store_inv 1 files" using init by (rule store_inv_initial)
  from run_store_inv [OF this run]
  have ok: "list_all (\<lambda>r. \<not> isl r) rs"
    and ids: "added_ids rs = map JInt [1 .. int (count_adds ops)]"
    and inv: "store_inv (1 + int (count_adds ops)) files'"
    by simp_all
  from inv obtain ns where
    l: "load_store files' = (Inr (JObj [(''next_id'', JInt (1 + int (count_adds ops))), (''notes'', JArr ns)]),
          ensure_store files')"
    and u: "distinct (map stored_id ns)"
    and r: "\<forall>n \<in> set ns. \<exists>j. stored_id n = JInt j \<and> 1 \<le> j \<and> j < 1 + int (count_adds ops)"
    by (rule store_invE)
  have ld: "loaded files' = JObj [(''next_id'', JInt (1 + int (count_adds ops))), (''notes'', JArr ns)]"
    using l by (rule loaded_eq)
  have n: "stored_next_id (loaded files') = JInt (1 + int (count_adds ops))"
    by (simp add: ld stored_next_id_def)
  have s: "stored_ids (loaded files') = map stored_id ns"
    by (simp add: ld stored_ids_def)
  have sub: "set (stored_ids (loaded files')) \<subseteq> set (added_ids rs)"
  proof
    fix i assume "i \<in> set (stored_ids (loaded files'))"
    then obtain x where "x \<in> set ns" "i = stored_id x" by (auto simp: s)
    with r obtain j where "i = JInt j" "1 \<le> j" "j < 1 + int (count_adds ops)" by auto
    then show "i \<in> set (added_ids rs)" by (simp add: ids)
  qed
  have rng: "\<forall>i \<in> set (added_ids rs) \<union> set (stored_ids (loaded files')).
      \<exists>j. i = JInt j \<and> 1 \<le> j \<and> j < 1 + int (count_adds ops)"
    using sub by (auto simp: ids)
  from ok ids n u sub rng show ?thesis by (simp add: s)
qed

lemma upto_1_3: "[1 .. 3 :: int] = [1, 2, 3]"
  by (simp add: upto_rec1)

theorem ids_increase_and_are_never_reused_witness:
  "(Map.empty :: fs) NOTES_FILE = None \<and>
   count_adds example_ops = 3 \<and>
   list_all (\<lambda>r. \<not> isl r) (fst (run example_ops Map.empty)) \<and>
   added_ids (fst (run example_ops Map.empty)) = [JInt 1, JInt 2, JInt 3] \<and>
   stored_next_id (loaded (snd (run example_ops Map.empty))) = JInt 4 \<and>
   distinct (stored_ids (loaded (snd (run example_ops Map.empty)))) \<and>
   set (stored_ids (loaded (snd (run example_ops Map.empty)))) \<subseteq> {JInt 1, JInt 2, JInt 3}"
proof -
  have c: "count_adds example_ops = 3" by (simp add: example_ops_def)
  have h: "(Map.empty :: fs) NOTES_FILE = None \<or> (Map.empty :: fs) NOTES_FILE = Some (json_dumps initial_store)"
    by simp
  have p: "run example_ops Map.empty = (fst (run example_ops Map.empty), snd (run example_ops Map.empty))"
    by simp
  from ids_increase_and_are_never_reused [OF h p]
  show ?thesis
    by (auto simp: c upto_1_3)
qed

section \<open>Searching\<close>

lemma startswith_iff: "startswith s q = (\<exists>after. s = q @ after)"
proof
  assume "startswith s q"
  then have "s = q @ drop (length q) s"
    unfolding startswith_def by (metis append_take_drop_id)
  then show "\<exists>after. s = q @ after" ..
next
  assume "\<exists>after. s = q @ after"
  then show "startswith s q" by (auto simp: startswith_def)
qed

lemma str_contains_iff: "str_contains s q = is_substring q s"
proof (induction s)
  case Nil
  show ?case by (auto simp: is_substring_def)
next
  case (Cons c s)
  have "is_substring q (c # s) = (startswith (c # s) q \<or> is_substring q s)"
  proof
    assume "is_substring q (c # s)"
    then obtain pre post where e: "c # s = pre @ q @ post" unfolding is_substring_def by blast
    show "startswith (c # s) q \<or> is_substring q s"
    proof (cases pre)
      case Nil
      with e show ?thesis by (auto simp: startswith_iff)
    next
      case (Cons d pre')
      with e have "s = pre' @ q @ post" by simp
      then show ?thesis unfolding is_substring_def by blast
    qed
  next
    assume "startswith (c # s) q \<or> is_substring q s"
    then show "is_substring q (c # s)"
    proof
      assume "startswith (c # s) q"
      then obtain post where "c # s = [] @ q @ post" by (auto simp: startswith_iff)
      then show ?thesis unfolding is_substring_def by blast
    next
      assume "is_substring q s"
      then obtain pre post where "s = pre @ q @ post" unfolding is_substring_def by blast
      then have "c # s = (c # pre) @ q @ post" by simp
      then show ?thesis unfolding is_substring_def by blast
    qed
  qed
  with Cons show ?case by simp
qed

lemma is_str_conv: "is_str v \<Longrightarrow> v = JStr (the_str v)"
  by (cases v) simp_all

lemma lower_contains_str: "is_str v \<Longrightarrow> lower_contains q v = Inr (is_substring q (lower (the_str v)))"
  by (cases v) (simp_all add: lower_contains_def str_contains_iff)

lemma any_result_total:
  "(\<And>x. x \<in> set xs \<Longrightarrow> f x = Inr (p x)) \<Longrightarrow> any_result f xs = Inr (\<exists>x \<in> set xs. p x)"
  by (induction xs) auto

lemma note_matches_typed:
  assumes "typed_note n"
  shows "note_matches (lower query) n = Inr (spec_matches query n)"
proof -
  from assms obtain ts where ts: "tags n = JArr ts" "list_all is_str ts"
    by (cases "tags n") (auto simp: typed_note_def)
  have t: "lower_contains (lower query) (title n)
      = Inr (is_substring (lower query) (lower (the_str (title n))))"
    using assms by (intro lower_contains_str) (simp add: typed_note_def)
  have b: "lower_contains (lower query) (body n)
      = Inr (is_substring (lower query) (lower (the_str (body n))))"
    using assms by (intro lower_contains_str) (simp add: typed_note_def)
  have g: "any_result (lower_contains (lower query)) ts
      = Inr (\<exists>t \<in> set ts. is_substring (lower query) (lower (the_str t)))"
    using ts(2) by (intro any_result_total lower_contains_str) (simp add: list_all_iff)
  show ?thesis
    by (cases "is_substring (lower query) (lower (the_str (title n)))";
        cases "is_substring (lower query) (lower (the_str (body n)))")
       (simp_all add: note_matches_def t b g ts(1) spec_matches_def)
qed

lemma search_notes_typed:
  assumes "list_notes files = (Inr ns, files')" and "list_all typed_note ns"
  shows "search_notes query files = (Inr (filter (spec_matches query) ns), files')"
proof -
  have "filter_result (note_matches (lower query)) ns = Inr (filter (spec_matches query) ns)"
    using assms(2) by (intro filter_result_total note_matches_typed) (simp add: list_all_iff)
  then show ?thesis using assms(1) by (simp add: search_notes_def)
qed

lemma spec_matches_empty: "spec_matches [] n"
proof -
  have "is_substring [] (lower (the_str (title n)))"
    unfolding is_substring_def by (rule exI [of _ "[]"]) simp
  then show ?thesis by (simp add: spec_matches_def lower_def)
qed

text \<open>
  C4. On a store of typed notes, \<^verbatim>\<open>search_notes(query)\<close> returns, in the stored order,
  exactly the notes for which the lowered query is a substring of the lowered title, of
  the lowered body or of a lowered tag; these are notes of \<^verbatim>\<open>list_notes()\<close>; and the empty
  query returns every note.
\<close>

theorem search_notes_returns_the_matches:
  "list_notes files = (Inr ns, files') \<Longrightarrow>
   list_all typed_note ns \<Longrightarrow>
   search_notes query files = (Inr (filter (spec_matches query) ns), files') \<and>
   (case fst (search_notes query files) of Inl e \<Rightarrow> False | Inr found \<Rightarrow> set found \<subseteq> set ns) \<and>
   search_notes [] files = (Inr ns, files')"
proof -
  assume l: "list_notes files = (Inr ns, files')" and t: "list_all typed_note ns"
  have 1: "search_notes query files = (Inr (filter (spec_matches query) ns), files')"
    using l t by (rule search_notes_typed)
  have "search_notes [] files = (Inr (filter (spec_matches []) ns), files')"
    using l t by (rule search_notes_typed)
  then have 2: "search_notes [] files = (Inr ns, files')"
    by (simp add: spec_matches_empty)
  from 1 2 show ?thesis by simp
qed

lemma spec_matches_computed:
  "spec_matches query n =
     (str_contains (lower (the_str (title n))) (lower query) \<or>
      str_contains (lower (the_str (body n))) (lower query) \<or>
      list_ex (\<lambda>t. str_contains (lower (the_str t)) (lower query)) (the_list (tags n)))"
  by (simp add: spec_matches_def str_contains_iff list_ex_iff)

lemma example_lowers:
  "lower ''MILK'' = ''milk''" "lower ''Buy milk'' = ''buy milk''" "lower ''Walk dog'' = ''walk dog''"
  "lower ''Call Bob'' = ''call bob''" "lower ''2%'' = ''2%''" "lower ''shopping'' = ''shopping''"
  "lower ''home'' = ''home''"
  by code_simp+

lemma example_matches:
  "spec_matches ''MILK'' (example_note 7 ''Buy milk'')"
  "\<not> spec_matches ''MILK'' (example_note 7 ''Walk dog'')"
  "\<not> spec_matches ''MILK'' (example_note 8 ''Call Bob'')"
  by (simp_all add: spec_matches_computed example_note_def example_lowers startswith_def)

theorem search_notes_returns_the_matches_witness:
  "list_notes example_files
     = (Inr [example_note 7 ''Buy milk'', example_note 7 ''Walk dog'', example_note 8 ''Call Bob''],
        example_files) \<and>
   list_all typed_note [example_note 7 ''Buy milk'', example_note 7 ''Walk dog'', example_note 8 ''Call Bob''] \<and>
   search_notes ''MILK'' example_files = (Inr [example_note 7 ''Buy milk''], example_files) \<and>
   search_notes [] example_files
     = (Inr [example_note 7 ''Buy milk'', example_note 7 ''Walk dog'', example_note 8 ''Call Bob''],
        example_files)"
proof -
  have t: "list_all typed_note
      [example_note 7 ''Buy milk'', example_note 7 ''Walk dog'', example_note 8 ''Call Bob'']"
    by (simp add: typed_note_def example_note_def)
  from search_notes_returns_the_matches [OF list_example t, of "''MILK''"] list_example t
  show ?thesis by (simp add: example_matches)
qed

section \<open>Saving what was loaded\<close>

lemma json_loads_final_newline:
  assumes "wf_json v"
  shows "json_loads (json_dumps v @ nl) = Inr v"
proof -
  have "cost v \<le> Suc (2 * length (iterencode 0 v @ nl))"
    using cost_le_length [of v 0] by simp
  moreover have "delim nl" by (simp add: delim_def nl_def)
  ultimately have "scan_once (Suc (2 * length (iterencode 0 v @ nl))) (iterencode 0 v @ nl) = Inr (v, nl)"
    using assms by (intro scan_once_iterencode)
  moreover have "skip_ws (iterencode 0 v @ nl) = iterencode 0 v @ nl"
    by (rule skip_ws_iterencode)
  moreover have "skip_ws nl = []"
    by (simp add: skip_ws_def nl_def is_ws_def)
  ultimately show ?thesis
    by (simp add: json_loads_def json_dumps_def)
qed

lemma load_edited: "load_store edited_files = (Inr initial_store, edited_files)"
  using load_store_present [of edited_files "json_dumps initial_store @ nl"]
  by (simp add: edited_files_def json_loads_final_newline wf_initial_store)

lemma save_loaded_Inr:
  "load_store files = (Inr data, files') \<Longrightarrow> save_loaded files = (Inr (), save_store data files')"
  by (simp add: save_loaded_def)

text \<open>
  C6, as the specification states it, fails: the store file that ends with a newline is
  well formed (it loads as the initial store), and \<^verbatim>\<open>save_store(load_store())\<close> writes it
  back without the newline.
\<close>

theorem save_of_load_changes_edited_file:
  "fst (load_store edited_files) = Inr initial_store \<and>
   fst (save_loaded edited_files) = Inr () \<and>
   snd (save_loaded edited_files) NOTES_FILE \<noteq> edited_files NOTES_FILE"
proof -
  have "save_loaded edited_files = (Inr (), save_store initial_store edited_files)"
    using load_edited by (rule save_loaded_Inr)
  then show ?thesis
    by (simp add: load_edited save_store_file) (simp add: edited_files_def nl_def)
qed

text \<open>
  C6, amended. When the store file loads as \<open>data\<close>, \<^verbatim>\<open>save_store(load_store())\<close> leaves in
  it the text that \<^verbatim>\<open>json.dump\<close> writes for \<open>data\<close>: the content is unchanged when the file
  held that text already, as every file that \<^verbatim>\<open>save_store\<close> wrote does, and a second
  \<^verbatim>\<open>save_store(load_store())\<close> changes nothing more.
\<close>

theorem save_of_load_writes_canonical_text:
  "load_store files = (Inr data, files') \<Longrightarrow>
   snd (save_loaded files) NOTES_FILE = Some (json_dumps data) \<and>
   (files NOTES_FILE = Some (json_dumps data) \<longrightarrow>
      snd (save_loaded files) NOTES_FILE = files NOTES_FILE) \<and>
   snd (save_loaded (snd (save_loaded files))) NOTES_FILE = snd (save_loaded files) NOTES_FILE \<and>
   (wf_json d \<longrightarrow>
      snd (save_loaded (save_store d files0)) NOTES_FILE = save_store d files0 NOTES_FILE)"
proof -
  assume l: "load_store files = (Inr data, files')"
  have s: "save_loaded files = (Inr (), save_store data files')"
    using l by (rule save_loaded_Inr)
  have wf: "wf_json data" using l by (rule load_store_wf(1))
  have 1: "snd (save_loaded files) NOTES_FILE = Some (json_dumps data)"
    by (simp add: s save_store_file)
  have "save_loaded (save_store data files') = (Inr (), save_store data (save_store data files'))"
    using load_store_save [OF wf] by (rule save_loaded_Inr)
  then have 2: "snd (save_loaded (snd (save_loaded files))) NOTES_FILE
      = snd (save_loaded files) NOTES_FILE"
    by (simp add: s save_store_file)
  have 3: "wf_json d \<longrightarrow>
      snd (save_loaded (save_store d files0)) NOTES_FILE = save_store d files0 NOTES_FILE"
  proof
    assume "wf_json d"
    then have "load_store (save_store d files0) = (Inr d, save_store d files0)"
      by (rule load_store_save)
    then have "save_loaded (save_store d files0) = (Inr (), save_store d (save_store d files0))"
      by (rule save_loaded_Inr)
    then show "snd (save_loaded (save_store d files0)) NOTES_FILE = save_store d files0 NOTES_FILE"
      by (simp add: save_store_file)
  qed
  from 1 2 3 show ?thesis by simp
qed

theorem save_of_load_writes_canonical_text_witness:
  "load_store example_files = (Inr example_store, example_files) \<and>
   example_files NOTES_FILE = Some (json_dumps example_store) \<and>
   wf_json example_store \<and>
   snd (save_loaded example_files) NOTES_FILE = example_files NOTES_FILE \<and>
   snd (save_loaded (save_store example_store Map.empty)) NOTES_FILE
     = save_store example_store Map.empty NOTES_FILE"
proof -
  have f: "example_files NOTES_FILE = Some (json_dumps example_store)"
    by (simp add: example_files_def)
  from save_of_load_writes_canonical_text [OF load_example, of example_store Map.empty]
  show ?thesis
    using load_example f wf_example_store by simp
qed

section \<open>Exporting\<close>

lemma py_iter_wf: "wf_json v \<Longrightarrow> py_iter v = Inr xs \<Longrightarrow> list_all wf_json xs"
  by (cases v) (auto simp: list_all_iff)

lemma note_of_dict_wf:
  assumes "note_of_dict x = Inr n" and "wf_json x"
  shows "wf_json (asdict n)"
proof -
  from assms(1) obtain kvs where x: "x = JObj kvs"
    by (cases x) (auto simp: note_of_dict_def)
  from assms(1) x have g: "dict_get kvs ''id'' = Some (note_id n)"
    "dict_get kvs ''title'' = Some (title n)" "dict_get kvs ''body'' = Some (body n)"
    "dict_get kvs ''tags'' = Some (tags n)" "dict_get kvs ''created_at'' = Some (created_at n)"
    by (auto simp: note_of_dict_def split: option.splits if_splits)
  have w: "wf_json (JObj kvs)" using assms(2) x by simp
  have "wf_json (note_id n)" "wf_json (title n)" "wf_json (body n)" "wf_json (tags n)"
    "wf_json (created_at n)"
    using g by (auto intro: wf_dict_get [OF w])
  then show ?thesis by (simp add: asdict_def)
qed

lemma list_notes_wf:
  assumes "list_notes files = (Inr ns, files')"
  shows "list_all (\<lambda>n. wf_json (asdict n)) ns"
proof -
  from assms obtain kvs xs where l: "load_store files = (Inr (JObj kvs), files')"
    and it: "py_iter (case dict_get kvs ''notes'' of None \<Rightarrow> JArr [] | Some v \<Rightarrow> v) = Inr xs"
    and m: "map_result note_of_dict xs = Inr ns"
    by (rule list_notes_Inr)
  have w: "wf_json (JObj kvs)" using l by (rule load_store_wf(1))
  have "wf_json (case dict_get kvs ''notes'' of None \<Rightarrow> JArr [] | Some v \<Rightarrow> v)"
    using wf_dict_get [OF w] by (cases "dict_get kvs ''notes''") auto
  then have wx: "list_all wf_json xs" using it by (rule py_iter_wf)
  have "list_all2 (\<lambda>x n. note_of_dict x = Inr n) xs ns" using m by (rule map_result_Inr)
  then show ?thesis
    using wx by (induction xs ns rule: list_all2_induct) (auto intro: note_of_dict_wf)
qed

lemma export_notes_json:
  "list_notes files = (Inr ns, files') \<Longrightarrow> fmt \<noteq> ''md'' \<Longrightarrow>
   export_notes out fmt files
     = (Inr out, files'(out \<mapsto> json_dumps (JObj [(''notes'', JArr (map asdict ns))])))"
  by (simp add: export_notes_def)

lemma map_result_asdict: "map_result note_of_dict (map asdict ns) = Inr ns"
  by (induction ns) (simp_all add: note_of_dict_asdict)

text \<open>
  C7. With a format other than \<^verbatim>\<open>"md"\<close> (so with \<^verbatim>\<open>"json"\<close>), \<^verbatim>\<open>export_notes\<close> writes to
  the path the JSON text of a dict with the single key \<^verbatim>\<open>notes\<close> and the records of the
  listed notes in their order; reading that text back with \<^verbatim>\<open>json.load\<close> gives this dict
  again, and building a \<^verbatim>\<open>Note\<close> from each of its records gives the notes of \<^verbatim>\<open>list_notes()\<close>.
\<close>

theorem export_json_round_trip:
  "list_notes files = (Inr ns, files') \<Longrightarrow>
   fmt \<noteq> ''md'' \<Longrightarrow>
   fst (export_notes out fmt files) = Inr out \<and>
   snd (export_notes out fmt files) out = Some (json_dumps (JObj [(''notes'', JArr (map asdict ns))])) \<and>
   json_loads (json_dumps (JObj [(''notes'', JArr (map asdict ns))]))
     = Inr (JObj [(''notes'', JArr (map asdict ns))]) \<and>
   map_result note_of_dict (map asdict ns) = Inr ns"
proof -
  assume l: "list_notes files = (Inr ns, files')" and f: "fmt \<noteq> ''md''"
  have e: "export_notes out fmt files
     = (Inr out, files'(out \<mapsto> json_dumps (JObj [(''notes'', JArr (map asdict ns))])))"
    using l f by (rule export_notes_json)
  have "list_all (\<lambda>n. wf_json (asdict n)) ns" using l by (rule list_notes_wf)
  then have "wf_json (JObj [(''notes'', JArr (map asdict ns))])"
    by (simp add: list_all_iff)
  then have "json_loads (json_dumps (JObj [(''notes'', JArr (map asdict ns))]))
     = Inr (JObj [(''notes'', JArr (map asdict ns))])"
    by (rule json_loads_dumps)
  then show ?thesis
    by (simp add: e map_result_asdict)
qed

theorem export_json_round_trip_witness:
  "list_notes example_files
     = (Inr [example_note 7 ''Buy milk'', example_note 7 ''Walk dog'', example_note 8 ''Call Bob''],
        example_files) \<and>
   ''json'' \<noteq> ''md'' \<and>
   fst (export_notes [''backup.json''] ''json'' example_files) = Inr [''backup.json''] \<and>
   snd (export_notes [''backup.json''] ''json'' example_files) [''backup.json'']
     = Some (json_dumps (JObj [(''notes'', JArr [asdict (example_note 7 ''Buy milk''),
          asdict (example_note 7 ''Walk dog''), asdict (example_note 8 ''Call Bob'')])]))"
proof -
  have f: "''json'' \<noteq> ''md''" by simp
  from export_json_round_trip [OF list_example f, of "[''backup.json'']"] list_example
  show ?thesis by simp
qed

section \<open>The steps of \<^verbatim>\<open>save_store\<close>\<close>










section \<open>\<^verbatim>\<open>view\<close> and \<^verbatim>\<open>delete\<close>\<close>

lemma str_join_strs:
  assumes "list_all is_str ts"
  shows "str_join sep (JArr ts) = Inr (join sep (map the_str ts))"
proof -
  have "map_result str_of ts = Inr (map the_str ts)"
  proof (rule map_result_total)
    fix x assume "x \<in> set ts"
    with assms have "is_str x" by (simp add: list_all_iff)
    then show "str_of x = Inr (the_str x)" by (cases x) (simp_all add: str_of_def)
  qed
  then show ?thesis by (simp add: str_join_def)
qed

lemma view_text_typed:
  assumes "typed_note n"
  shows "view_text n = Inr (view_lines n)"
proof -
  from assms obtain i where i: "note_id n = JInt i"
    by (cases "note_id n") (auto simp: typed_note_def)
  from assms have t: "title n = JStr (the_str (title n))" "body n = JStr (the_str (body n))"
    "created_at n = JStr (the_str (created_at n))"
    by (simp_all add: typed_note_def is_str_conv)
  from assms obtain ts where ts: "tags n = JArr ts" "list_all is_str ts"
    by (cases "tags n") (auto simp: typed_note_def)
  have f: "py_format (title n) = Inr (the_str (title n))" "py_format (body n) = Inr (the_str (body n))"
    "py_format (created_at n) = Inr (the_str (created_at n))"
    by (subst t, simp)+
  show ?thesis
    by (simp add: view_text_def view_lines_def f i ts(1) str_join_strs [OF ts(2)])
qed

lemma main_view_absent:
  assumes "list_notes files = (Inr ns, files')" and "\<forall>n \<in> set ns. \<not> py_eq_int (note_id n) k"
  shows "main (View k) files = (Inr 1, ''Note '' @ int_repr k @ '' not found'' @ nl, files')"
proof -
  have "find (\<lambda>n. py_eq_int (note_id n) k) ns = None"
    using assms(2) by (simp add: find_None_iff)
  then show ?thesis
    using find_note_notes [OF assms(1), of k] by simp
qed

lemma main_view_found:
  assumes "list_notes files = (Inr ns, files')" and "list_all typed_note ns"
    and "find (\<lambda>n. py_eq_int (note_id n) k) ns = Some n"
  shows "main (View k) files = (Inr 0, view_lines n @ nl, files')"
proof -
  from assms(3) have "n \<in> set ns" by (auto simp: find_Some_iff)
  with assms(2) have "typed_note n" by (simp add: list_all_iff)
  then have "view_text n = Inr (view_lines n)" by (rule view_text_typed)
  then show ?thesis
    using find_note_notes [OF assms(1), of k] assms(3) by simp
qed

lemma main_view_present:
  assumes "list_notes files = (Inr ns, files')" and "list_all typed_note ns"
    and "\<exists>n \<in> set ns. py_eq_int (note_id n) k"
  shows "fst (main (View k) files) = Inr 0"
proof -
  from assms(3) obtain n where "find (\<lambda>n. py_eq_int (note_id n) k) ns = Some n"
    by (cases "find (\<lambda>n. py_eq_int (note_id n) k) ns") (auto simp: find_None_iff)
  with assms(1,2) have "main (View k) files = (Inr 0, view_lines n @ nl, files')"
    by (rule main_view_found)
  then show ?thesis by simp
qed

lemma delete_note_absent:
  assumes "list_notes files = (Inr notes, files')"
    and "\<forall>n \<in> set notes. \<not> py_eq_int (note_id n) k"
  shows "delete_note k files = (Inr False, files')"
proof -
  from assms(1) obtain kvs ns where l: "load_store files = (Inr (JObj kvs), files')"
    and it: "py_iter (case dict_get kvs ''notes'' of None \<Rightarrow> JArr [] | Some v \<Rightarrow> v) = Inr ns"
    and m: "map_result note_of_dict ns = Inr notes"
    by (rule list_notes_Inr)
  have rel: "list_all2 (\<lambda>n x. note_of_dict n = Inr x) ns notes"
    using m by (rule map_result_Inr)
  have dicts: "list_all is_dict ns"
    using rel note_of_dict_Inr(1) by (auto simp: list_all_iff list_all2_conv_all_nth in_set_conv_nth)
  have "(\<exists>n \<in> set ns. has_id k n) = (\<exists>x \<in> set notes. py_eq_int (note_id x) k)"
    using rel by (rule list_all2_ex) (rule note_of_dict_Inr(2))
  with assms(2) have "\<not> (\<exists>n \<in> set ns. has_id k n)" by simp
  then show ?thesis
    using delete_note_stored [OF l it dicts, of k] by simp
qed

lemma main_delete:
  assumes "list_notes files = (Inr ns, files')"
  shows "main (Delete k) files =
     (Inr 0,
      (if \<exists>n \<in> set ns. py_eq_int (note_id n) k then ''Deleted.'' else ''Note not found.'') @ nl,
      snd (delete_note k files))"
proof -
  have "delete_note k files = (Inr (\<exists>n \<in> set ns. py_eq_int (note_id n) k), snd (delete_note k files))"
    using delete_note_notes(1) [OF assms, of k] by (cases "delete_note k files") simp
  then obtain f where d: "delete_note k files = (Inr (\<exists>n \<in> set ns. py_eq_int (note_id n) k), f)" ..
  show ?thesis by (simp add: d)
qed

text \<open>
  C9. On a store of typed notes: when no note has the id, \<^verbatim>\<open>view\<close> prints
  \<^verbatim>\<open>Note <id> not found\<close> and returns 1, and \<^verbatim>\<open>delete\<close> prints \<^verbatim>\<open>Note not found.\<close>,
  returns 0 and leaves the files as they are; when a note has the id, \<^verbatim>\<open>view\<close> returns 0
  and \<^verbatim>\<open>delete\<close> prints \<^verbatim>\<open>Deleted.\<close> and returns 0. Moreover \<^verbatim>\<open>view\<close> prints the
  first note that has the id and changes no file that \<^verbatim>\<open>list_notes\<close> has not written,
  and \<^verbatim>\<open>delete\<close> leaves the file system of \<^verbatim>\<open>delete_note\<close>, in which the store lists
  the notes without those that have the id.
\<close>

theorem view_and_delete_exit_codes:
  "list_notes files = (Inr ns, files') \<Longrightarrow>
   list_all typed_note ns \<Longrightarrow>
   (if \<exists>n \<in> set ns. py_eq_int (note_id n) k
    then fst (main (View k) files) = Inr 0 \<and>
         fst (main (Delete k) files) = Inr 0 \<and>
         fst (snd (main (Delete k) files)) = ''Deleted.'' @ nl
    else main (View k) files = (Inr 1, ''Note '' @ int_repr k @ '' not found'' @ nl, files') \<and>
         fst (main (Delete k) files) = Inr 0 \<and>
         fst (snd (main (Delete k) files)) = ''Note not found.'' @ nl \<and>
         snd (snd (main (Delete k) files)) = files') \<and>
   (\<forall>n. find (\<lambda>n. py_eq_int (note_id n) k) ns = Some n \<longrightarrow>
      main (View k) files = (Inr 0, view_lines n @ nl, files')) \<and>
   snd (snd (main (Delete k) files)) = snd (delete_note k files) \<and>
   list_notes (snd (snd (main (Delete k) files)))
     = (Inr (filter (\<lambda>n. \<not> py_eq_int (note_id n) k) ns), snd (snd (main (Delete k) files)))"
proof -
  assume l: "list_notes files = (Inr ns, files')" and t: "list_all typed_note ns"
  have d: "main (Delete k) files =
     (Inr 0,
      (if \<exists>n \<in> set ns. py_eq_int (note_id n) k then ''Deleted.'' else ''Note not found.'') @ nl,
      snd (delete_note k files))"
    using l by (rule main_delete)
  have s: "snd (snd (main (Delete k) files)) = snd (delete_note k files)"
    by (simp add: d del: main.simps)
  have f: "list_notes (snd (snd (main (Delete k) files)))
     = (Inr (filter (\<lambda>n. \<not> py_eq_int (note_id n) k) ns), snd (snd (main (Delete k) files)))"
    unfolding s using l by (rule delete_note_notes(2))
  have v: "\<forall>n. find (\<lambda>n. py_eq_int (note_id n) k) ns = Some n \<longrightarrow>
      main (View k) files = (Inr 0, view_lines n @ nl, files')"
    using main_view_found [OF l t] by blast
  have c: "if \<exists>n \<in> set ns. py_eq_int (note_id n) k
    then fst (main (View k) files) = Inr 0 \<and>
         fst (main (Delete k) files) = Inr 0 \<and>
         fst (snd (main (Delete k) files)) = ''Deleted.'' @ nl
    else main (View k) files = (Inr 1, ''Note '' @ int_repr k @ '' not found'' @ nl, files') \<and>
         fst (main (Delete k) files) = Inr 0 \<and>
         fst (snd (main (Delete k) files)) = ''Note not found.'' @ nl \<and>
         snd (snd (main (Delete k) files)) = files'"
  proof (cases "\<exists>n \<in> set ns. py_eq_int (note_id n) k")
    case True
    then show ?thesis
      using main_view_present [OF l t True] by (simp add: d del: main.simps)
  next
    case False
    then have a: "\<forall>n \<in> set ns. \<not> py_eq_int (note_id n) k" by simp
    have "snd (delete_note k files) = files'"
      using delete_note_absent [OF l a] by simp
    with main_view_absent [OF l a] False show ?thesis
      by (simp add: d del: main.simps)
  qed
  from c v s f show ?thesis by (intro conjI)
qed

lemma int_repr_5: "int_repr 5 = ''5''"
  by code_simp

lemma int_repr_8: "int_repr 8 = ''8''"
  by code_simp

theorem view_and_delete_exit_codes_witness:
  "list_notes example_files
     = (Inr [example_note 7 ''Buy milk'', example_note 7 ''Walk dog'', example_note 8 ''Call Bob''],
        example_files) \<and>
   list_all typed_note [example_note 7 ''Buy milk'', example_note 7 ''Walk dog'', example_note 8 ''Call Bob''] \<and>
   main (View 5) example_files = (Inr 1, ''Note 5 not found'' @ nl, example_files) \<and>
   main (Delete 5) example_files = (Inr 0, ''Note not found.'' @ nl, example_files) \<and>
   main (View 8) example_files
     = (Inr 0,
        ''Call Bob (id=8)'' @ nl @ ''created: 2024-03-09T01:02:03Z'' @ nl @ ''tags: shopping, home'' @ nl
        @ nl @ ''2%'' @ nl,
        example_files) \<and>
   fst (main (Delete 8) example_files) = Inr 0 \<and>
   fst (snd (main (Delete 8) example_files)) = ''Deleted.'' @ nl \<and>
   fst (list_notes (snd (snd (main (Delete 8) example_files))))
     = Inr [example_note 7 ''Buy milk'', example_note 7 ''Walk dog''] \<and>
   fst (list_notes (snd (snd (main (Delete 7) example_files)))) = Inr [example_note 8 ''Call Bob'']"
proof -
  define n1 where "n1 = example_note 7 ''Buy milk''"
  define n2 where "n2 = example_note 7 ''Walk dog''"
  define n3 where "n3 = example_note 8 ''Call Bob''"
  have i: "note_id n1 = JInt 7" "note_id n2 = JInt 7" "note_id n3 = JInt 8"
    by (simp_all add: n1_def n2_def n3_def example_note_def)
  have l: "list_notes example_files = (Inr [n1, n2, n3], example_files)"
    unfolding n1_def n2_def n3_def by (rule list_example)
  have t: "list_all typed_note [n1, n2, n3]"
    by (simp add: typed_note_def example_note_def n1_def n2_def n3_def)
  note c5 = view_and_delete_exit_codes [OF l t, of 5]
  note c7 = view_and_delete_exit_codes [OF l t, of 7]
  note c8 = view_and_delete_exit_codes [OF l t, of 8]
  from c5 have v5: "main (View 5) example_files = (Inr 1, ''Note 5 not found'' @ nl, example_files)"
    by (simp add: i int_repr_5 del: main.simps)
  from c5 have "fst (main (Delete 5) example_files) = Inr 0"
    and "fst (snd (main (Delete 5) example_files)) = ''Note not found.'' @ nl"
    and "snd (snd (main (Delete 5) example_files)) = example_files"
    by (simp_all add: i del: main.simps)
  then have d5: "main (Delete 5) example_files = (Inr 0, ''Note not found.'' @ nl, example_files)"
    by (cases "main (Delete 5) example_files") simp
  have "view_lines n3 @ nl = ''Call Bob (id=8)'' @ nl @ ''created: 2024-03-09T01:02:03Z'' @ nl
      @ ''tags: shopping, home'' @ nl @ nl @ ''2%'' @ nl"
    by (simp add: view_lines_def n3_def example_note_def int_repr_8)
  moreover from c8 have "main (View 8) example_files = (Inr 0, view_lines n3 @ nl, example_files)"
    by (simp add: i del: main.simps)
  ultimately have v8: "main (View 8) example_files
      = (Inr 0, ''Call Bob (id=8)'' @ nl @ ''created: 2024-03-09T01:02:03Z'' @ nl
           @ ''tags: shopping, home'' @ nl @ nl @ ''2%'' @ nl, example_files)"
    by simp
  from c8 have d8: "fst (main (Delete 8) example_files) = Inr 0"
    "fst (snd (main (Delete 8) example_files)) = ''Deleted.'' @ nl"
    by (simp_all add: i del: main.simps)
  from c8 have "list_notes (snd (snd (main (Delete 8) example_files)))
      = (Inr (filter (\<lambda>n. \<not> py_eq_int (note_id n) 8) [n1, n2, n3]),
         snd (snd (main (Delete 8) example_files)))"
    by (rule conjunct2 [THEN conjunct2, THEN conjunct2])
  then have l8: "fst (list_notes (snd (snd (main (Delete 8) example_files)))) = Inr [n1, n2]"
    by (simp add: i del: main.simps)
  from c7 have "list_notes (snd (snd (main (Delete 7) example_files)))
      = (Inr (filter (\<lambda>n. \<not> py_eq_int (note_id n) 7) [n1, n2, n3]),
         snd (snd (main (Delete 7) example_files)))"
    by (rule conjunct2 [THEN conjunct2, THEN conjunct2])
  then have d7: "fst (list_notes (snd (snd (main (Delete 7) example_files)))) = Inr [n3]"
    by (simp add: i del: main.simps)
  from l t v5 d5 v8 d8 l8 d7 show ?thesis
    unfolding n1_def n2_def n3_def by (intro conjI)
qed

end
